theory Spec2Isabelle
  imports Complex_Main
begin

section \<open>Peak detection: the batch detector and the single-sample detector\<close>

text \<open>
  Samples are modelled as reals, positions and counters as Python's unbounded integers
  (\<open>int\<close>), indices into a materialised signal as \<open>nat\<close>. An optional filter value
  (\<open>prominence=None\<close>, \<open>width=None\<close>) is an \<open>option\<close>.
\<close>

subsection \<open>Configuration shared by both classes\<close>

record config =
  threshold :: real
  min_distance :: int
  prominence :: "real option"
  width :: "real option"

subsection \<open>PeakDetector (peak.py)\<close>

record PeakDetector = config +
  signal :: "real list"

record peak_properties =
  heights :: "real list"
  prominences :: "real option list"
  widths :: "int option list"

text \<open>Python's slice \<open>xs[a:b]\<close> for \<open>0 \<le> a\<close>, \<open>0 \<le> b\<close>.\<close>

definition slice :: "'a list \<Rightarrow> nat \<Rightarrow> nat \<Rightarrow> 'a list" where
  "slice xs a b = take (b - a) (drop a xs)"

text \<open>Step 1 of \<open>detect_peaks\<close>: \<open>for i in range(1, len(signal) - 1)\<close>.\<close>

definition is_candidate :: "real list \<Rightarrow> real \<Rightarrow> nat \<Rightarrow> bool" where
  "is_candidate sig th i \<longleftrightarrow> sig ! i > sig ! (i - 1) + th \<and> sig ! i > sig ! (i + 1) + th"

definition initial_peaks :: "real list \<Rightarrow> real \<Rightarrow> nat list" where
  "initial_peaks sig th = filter (is_candidate sig th) [1 ..< length sig - 1]"

text \<open>
  \<open>_enforce_min_distance\<close>: the loop over \<open>peaks[1:]\<close> carries \<open>peaks_filtered\<close>, whose
  last element is \<open>peaks_filtered[-1]\<close>.
\<close>

fun enforce_loop :: "nat list \<Rightarrow> int \<Rightarrow> nat list \<Rightarrow> nat list" where
  "enforce_loop [] d peaks_filtered = peaks_filtered"
| "enforce_loop (p # ps) d peaks_filtered =
     enforce_loop ps d
       (if int p - int (last peaks_filtered) \<ge> d then peaks_filtered @ [p] else peaks_filtered)"

definition enforce_min_distance :: "nat list \<Rightarrow> int \<Rightarrow> nat list" where
  "enforce_min_distance peaks d =
     (if length peaks \<le> 1 then peaks else enforce_loop (tl peaks) d [hd peaks])"

text \<open>
  \<open>_calculate_prominence\<close>: the two \<open>while\<close> loops. The left one counts down to 0, the
  right one up to \<open>len(signal) - 1\<close>.
\<close>

fun left_base_walk :: "real list \<Rightarrow> nat \<Rightarrow> nat" where
  "left_base_walk sig 0 = 0"
| "left_base_walk sig (Suc n) =
     (if sig ! Suc n \<le> sig ! n then left_base_walk sig n else Suc n)"

function right_base_walk :: "real list \<Rightarrow> nat \<Rightarrow> nat" where
  "right_base_walk sig rb =
     (if rb < length sig - 1 \<and> sig ! rb \<le> sig ! (rb + 1)
      then right_base_walk sig (rb + 1) else rb)"
  by pat_completeness auto
termination
  by (relation "measure (\<lambda>(sig, rb). length sig - rb)") auto

declare right_base_walk.simps [simp del]

definition calculate_prominence :: "real list \<Rightarrow> nat \<Rightarrow> real" where
  "calculate_prominence sig peak =
     (let left_base = left_base_walk sig peak;
          right_base = right_base_walk sig peak;
          left_min = min_list (slice sig left_base (peak + 1));
          right_min = min_list (slice sig peak (right_base + 1));
          min_height = max left_min right_min
      in sig ! peak - min_height)"

text \<open>\<open>_calculate_width\<close>.\<close>

fun left_idx_walk :: "real list \<Rightarrow> real \<Rightarrow> nat \<Rightarrow> nat" where
  "left_idx_walk sig half_height 0 = 0"
| "left_idx_walk sig half_height (Suc n) =
     (if sig ! Suc n > half_height then left_idx_walk sig half_height n else Suc n)"

function right_idx_walk :: "real list \<Rightarrow> real \<Rightarrow> nat \<Rightarrow> nat" where
  "right_idx_walk sig half_height r =
     (if r < length sig - 1 \<and> sig ! r > half_height
      then right_idx_walk sig half_height (r + 1) else r)"
  by pat_completeness auto
termination
  by (relation "measure (\<lambda>(sig, half_height, r). length sig - r)") auto

declare right_idx_walk.simps [simp del]

definition calculate_width :: "real list \<Rightarrow> real \<Rightarrow> nat \<Rightarrow> int" where
  "calculate_width sig th peak =
     (let peak_height = sig ! peak;
          half_height = (peak_height + th) / 2;
          left_idx = left_idx_walk sig half_height peak;
          right_idx = right_idx_walk sig half_height peak
      in int right_idx - int left_idx)"

text \<open>
  Step 3 of \<open>detect_peaks\<close>: the loop over the distance-filtered peaks, which appends to
  the three property lists unless a \<open>continue\<close> is taken.
\<close>

fun properties_loop :: "PeakDetector \<Rightarrow> nat list \<Rightarrow> peak_properties \<Rightarrow> peak_properties" where
  "properties_loop D [] pp = pp"
| "properties_loop D (peak # rest) pp =
     (let height = signal D ! peak;
          prom = (case prominence D of None \<Rightarrow> None
                  | Some _ \<Rightarrow> Some (calculate_prominence (signal D) peak));
          w = (case width D of None \<Rightarrow> None
               | Some _ \<Rightarrow> Some (calculate_width (signal D) (threshold D) peak))
      in if (case (prominence D, prom) of (Some p, Some v) \<Rightarrow> v < p | _ \<Rightarrow> False)
           then properties_loop D rest pp
         else if (case (width D, w) of (Some wd, Some v) \<Rightarrow> real_of_int v < wd | _ \<Rightarrow> False)
           then properties_loop D rest pp
         else properties_loop D rest
                (pp\<lparr>heights := heights pp @ [height],
                    prominences := prominences pp @ [prom],
                    widths := widths pp @ [w]\<rparr>))"

definition detect_peaks :: "PeakDetector \<Rightarrow> nat list \<times> peak_properties" where
  "detect_peaks D =
     (let peaks = initial_peaks (signal D) (threshold D);
          peaks = enforce_min_distance peaks (min_distance D);
          peak_properties =
            properties_loop D peaks \<lparr>heights = [], prominences = [], widths = []\<rparr>
      in (peaks, peak_properties))"

text \<open>The constructor \<open>PeakDetector(signal, threshold, min_distance, prominence, width)\<close>.\<close>

definition PeakDetector_init ::
  "real list \<Rightarrow> real \<Rightarrow> int \<Rightarrow> real option \<Rightarrow> real option \<Rightarrow> PeakDetector" where
  "PeakDetector_init sig th d pr wd =
     \<lparr>threshold = th, min_distance = d, prominence = pr, width = wd, signal = sig\<rparr>"

text \<open>
  The distance filter in the words of the specification: the first candidate is kept, and
  each later candidate is kept iff its index minus the index of the last kept candidate is
  at least \<open>min_distance\<close>.
\<close>

fun greedy_keep :: "int \<Rightarrow> nat \<Rightarrow> nat list \<Rightarrow> nat list" where
  "greedy_keep d last_kept [] = []"
| "greedy_keep d last_kept (p # ps) =
     (if int p - int last_kept \<ge> d then p # greedy_keep d p ps else greedy_keep d last_kept ps)"

fun spec_distance_filter :: "int \<Rightarrow> nat list \<Rightarrow> nat list" where
  "spec_distance_filter d [] = []"
| "spec_distance_filter d (p # ps) = p # greedy_keep d p ps"

text \<open>
  The prominence in the words of the specification: from the peak, descend to the left
  while the signal does not rise, to \<open>left_base\<close>; symmetrically to the right.
\<close>

fun spec_left_base :: "real list \<Rightarrow> nat \<Rightarrow> nat" where
  "spec_left_base sig 0 = 0"
| "spec_left_base sig (Suc n) =
     (if sig ! n \<le> sig ! Suc n then spec_left_base sig n else Suc n)"

function spec_right_base :: "real list \<Rightarrow> nat \<Rightarrow> nat" where
  "spec_right_base sig rb =
     (if rb < length sig - 1 \<and> sig ! (rb + 1) \<le> sig ! rb
      then spec_right_base sig (rb + 1) else rb)"
  by pat_completeness auto
termination
  by (relation "measure (\<lambda>(sig, rb). length sig - rb)") auto

declare spec_right_base.simps [simp del]

definition spec_prominence :: "real list \<Rightarrow> nat \<Rightarrow> real" where
  "spec_prominence sig peak =
     sig ! peak - max (min_list (slice sig (spec_left_base sig peak) (peak + 1)))
                      (min_list (slice sig peak (spec_right_base sig peak + 1)))"

subsection \<open>PeakDetectorSingleSample (peak\_single\_sample.py)\<close>

text \<open>A peak is the tuple \<open>(position, value)\<close>.\<close>

type_synonym peak = "int \<times> real"

datatype error = IndexError

record PeakDetectorSingleSample = config +
  buffer_size :: int
  buffer :: "real list"
  buffer_index :: int
  potential_peaks :: "peak list"
  confirmed_peaks :: "peak list"
  sample_count :: int

text \<open>\<open>[0] * buffer_size\<close> is the empty list when \<open>buffer_size \<le> 0\<close>.\<close>

definition PeakDetectorSingleSample_init ::
  "int \<Rightarrow> real \<Rightarrow> int \<Rightarrow> real option \<Rightarrow> real option \<Rightarrow> PeakDetectorSingleSample" where
  "PeakDetectorSingleSample_init bs th d pr wd =
     \<lparr>threshold = th, min_distance = d, prominence = pr, width = wd,
      buffer_size = bs, buffer = replicate (nat bs) 0, buffer_index = 0,
      potential_peaks = [], confirmed_peaks = [], sample_count = 0\<rparr>"

text \<open>
  The item assignment \<open>xs[i] = v\<close>: a negative index counts from the end, an index out
  of range raises.
\<close>

definition list_setitem :: "'a list \<Rightarrow> int \<Rightarrow> 'a \<Rightarrow> error + 'a list" where
  "list_setitem xs i v =
     (let n = int (length xs); j = (if i < 0 then n + i else i)
      in if 0 \<le> j \<and> j < n then Inr (xs[nat j := v]) else Inl IndexError)"

text \<open>The truth value of an optional number: \<open>None\<close> and \<open>0\<close> are false.\<close>

definition truthy :: "real option \<Rightarrow> bool" where
  "truthy v = (case v of None \<Rightarrow> False | Some x \<Rightarrow> x \<noteq> 0)"

text \<open>
  Every index that the methods below read is a residue modulo \<open>buffer_size\<close>. The
  write in \<open>add_sample\<close> comes first and raises on an empty buffer, so the reads happen
  with \<open>len(buffer) = buffer_size \<ge> 1\<close> and are in range (the invariant
  \<open>detector_inv\<close> below, lemmas \<open>init_inv\<close> and \<open>step_inv\<close>); they are written
  with \<open>!\<close>.
\<close>

definition check_potential_peak :: "PeakDetectorSingleSample \<Rightarrow> PeakDetectorSingleSample" where
  "check_potential_peak s =
     (let current_index = (buffer_index s - 2) mod buffer_size s;
          prev_index = (current_index - 1) mod buffer_size s;
          next_index = (current_index + 1) mod buffer_size s
      in if buffer s ! nat current_index > buffer s ! nat prev_index + threshold s \<and>
            buffer s ! nat current_index > buffer s ! nat next_index + threshold s
         then s\<lparr>potential_peaks :=
                  potential_peaks s @ [(sample_count s - 2, buffer s ! nat current_index)]\<rparr>
         else s)"

definition ss_calculate_prominence :: "PeakDetectorSingleSample \<Rightarrow> peak \<Rightarrow> real" where
  "ss_calculate_prominence s peak =
     (let peak_index = fst peak mod buffer_size s;
          left_min = min_list (drop (nat peak_index) (buffer s) @ take (nat peak_index) (buffer s));
          right_min = min_list (drop (nat peak_index) (buffer s) @ take (nat peak_index) (buffer s))
      in snd peak - max left_min right_min)"

text \<open>
  The two \<open>while\<close> loops of \<open>_calculate_width\<close>. Each may fail to return on a state
  that no run produces (a zero \<open>buffer_size\<close>), so not returning is the value \<open>None\<close>.
\<close>

partial_function (option) width_left_loop ::
  "real list \<Rightarrow> int \<Rightarrow> real \<Rightarrow> int \<Rightarrow> int \<Rightarrow> int option" where
  "width_left_loop buf bs half_height peak_index left =
     (if buf ! nat left > half_height
      then (if (left - 1) mod bs = peak_index then Some ((left - 1) mod bs)
            else width_left_loop buf bs half_height peak_index ((left - 1) mod bs))
      else Some left)"

declare width_left_loop.simps [code]

partial_function (option) width_right_loop ::
  "real list \<Rightarrow> int \<Rightarrow> real \<Rightarrow> int \<Rightarrow> int \<Rightarrow> int option" where
  "width_right_loop buf bs half_height peak_index right =
     (if buf ! nat right > half_height
      then (if (right + 1) mod bs = peak_index then Some ((right + 1) mod bs)
            else width_right_loop buf bs half_height peak_index ((right + 1) mod bs))
      else Some right)"

declare width_right_loop.simps [code]

definition ss_calculate_width :: "PeakDetectorSingleSample \<Rightarrow> peak \<Rightarrow> int option" where
  "ss_calculate_width s peak =
     (let half_height = (snd peak + threshold s) / 2;
          peak_index = fst peak mod buffer_size s
      in case width_left_loop (buffer s) (buffer_size s) half_height peak_index peak_index of
           None \<Rightarrow> None
         | Some left \<Rightarrow>
            (case width_right_loop (buffer s) (buffer_size s) half_height peak_index peak_index of
               None \<Rightarrow> None
             | Some right \<Rightarrow>
                 Some (if right > left then right - left else buffer_size s - left + right)))"

text \<open>The three checks of \<open>_check_peak_validity\<close>, in the order of the source.\<close>

definition distance_rejects :: "PeakDetectorSingleSample \<Rightarrow> peak \<Rightarrow> bool" where
  "distance_rejects s peak \<longleftrightarrow>
     min_distance s \<noteq> 0 \<and> confirmed_peaks s \<noteq> [] \<and>
     fst peak - fst (last (confirmed_peaks s)) < min_distance s"

definition prominence_rejects :: "PeakDetectorSingleSample \<Rightarrow> peak \<Rightarrow> bool" where
  "prominence_rejects s peak \<longleftrightarrow>
     truthy (prominence s) \<and> ss_calculate_prominence s peak < the (prominence s)"

definition check_peak_validity :: "PeakDetectorSingleSample \<Rightarrow> peak \<Rightarrow> bool option" where
  "check_peak_validity s peak =
     (if distance_rejects s peak then Some False
      else if prominence_rejects s peak then Some False
      else if truthy (width s) then
        (case ss_calculate_width s peak of
           None \<Rightarrow> None
         | Some w \<Rightarrow> if real_of_int w < the (width s) then Some False else Some True)
      else Some True)"

text \<open>
  \<open>_process_potential_peaks\<close>: the loop over \<open>self.potential_peaks\<close> appends to
  \<open>self.confirmed_peaks\<close> and to the local \<open>new_potential_peaks\<close>.
\<close>

fun process_loop ::
  "peak list \<Rightarrow> PeakDetectorSingleSample \<Rightarrow> peak list \<Rightarrow>
   (PeakDetectorSingleSample \<times> peak list) option" where
  "process_loop [] s new_potential_peaks = Some (s, new_potential_peaks)"
| "process_loop (peak # rest) s new_potential_peaks =
     (if sample_count s - fst peak \<ge> buffer_size s div 2 then
        (case check_peak_validity s peak of
           None \<Rightarrow> None
         | Some ok \<Rightarrow>
             process_loop rest
               (if ok then s\<lparr>confirmed_peaks := confirmed_peaks s @ [peak]\<rparr> else s)
               new_potential_peaks)
      else process_loop rest s (new_potential_peaks @ [peak]))"

definition process_potential_peaks ::
  "PeakDetectorSingleSample \<Rightarrow> PeakDetectorSingleSample option" where
  "process_potential_peaks s =
     (case process_loop (potential_peaks s) s [] of
        None \<Rightarrow> None
      | Some (s', new_potential_peaks) \<Rightarrow> Some (s'\<lparr>potential_peaks := new_potential_peaks\<rparr>))"

text \<open>
  \<open>add_sample\<close>. The value returned to the caller is \<open>confirmed_peaks\<close> of the new
  state. \<open>Some (Inl e)\<close> is the exception \<open>e\<close>, \<open>None\<close> a call that does not return.
\<close>

definition add_sample ::
  "real \<Rightarrow> PeakDetectorSingleSample \<Rightarrow> (error + PeakDetectorSingleSample) option" where
  "add_sample sample s0 =
     (let s1 = s0\<lparr>sample_count := sample_count s0 + 1\<rparr>
      in case list_setitem (buffer s1) (buffer_index s1) sample of
           Inl e \<Rightarrow> Some (Inl e)
         | Inr buf \<Rightarrow>
            (let s2 = s1\<lparr>buffer := buf\<rparr>;
                 s3 = s2\<lparr>buffer_index := (buffer_index s2 + 1) mod buffer_size s2\<rparr>;
                 s4 = (if sample_count s3 \<ge> 3 then check_potential_peak s3 else s3)
             in if sample_count s4 \<ge> buffer_size s4
                then map_option Inr (process_potential_peaks s4)
                else Some (Inr s4)))"

definition get_peaks :: "PeakDetectorSingleSample \<Rightarrow> peak list" where
  "get_peaks s = confirmed_peaks s"

text \<open>A caller feeding a stream one sample at a time; it stops at the first exception.\<close>

fun add_samples ::
  "real list \<Rightarrow> PeakDetectorSingleSample \<Rightarrow> (error + PeakDetectorSingleSample) option" where
  "add_samples [] s = Some (Inr s)"
| "add_samples (x # xs) s =
     (case add_sample x s of
        Some (Inr s') \<Rightarrow> add_samples xs s'
      | r \<Rightarrow> r)"

subsection \<open>Auxiliary notions for the single-sample detector\<close>

text \<open>
  These are not functions of the source. They name the state between the candidate check
  and the resolution of pending candidates, the outcome of the three validity checks, the
  resolution loop as a total function, and the invariants of the states that a run produces.
  The lemmas \<open>process_loop_eq\<close> and \<open>add_sample_eq\<close> relate them to the model above.
\<close>

definition due :: "PeakDetectorSingleSample \<Rightarrow> peak \<Rightarrow> bool" where
  "due s pk \<longleftrightarrow> sample_count s - fst pk \<ge> buffer_size s div 2"

definition after_check :: "real \<Rightarrow> PeakDetectorSingleSample \<Rightarrow> PeakDetectorSingleSample" where
  "after_check x s =
     (let s3 = s\<lparr>sample_count := sample_count s + 1,
                 buffer := (buffer s)[nat (buffer_index s) := x],
                 buffer_index := (buffer_index s + 1) mod buffer_size s\<rparr>
      in if sample_count s3 \<ge> 3 then check_potential_peak s3 else s3)"

definition buffer_ok :: "PeakDetectorSingleSample \<Rightarrow> bool" where
  "buffer_ok s \<longleftrightarrow> 0 < buffer_size s \<and> length (buffer s) = nat (buffer_size s)"

definition mid_inv :: "PeakDetectorSingleSample \<Rightarrow> bool" where
  "mid_inv s \<longleftrightarrow>
     buffer_ok s \<and> 0 \<le> sample_count s \<and>
     buffer_index s = sample_count s mod buffer_size s \<and>
     (\<forall>pk \<in> set (potential_peaks s).
        1 \<le> fst pk \<and> fst pk \<le> sample_count s - 2 \<and>
        buffer s ! nat (fst pk mod buffer_size s) = snd pk) \<and>
     sorted_wrt (<) (map fst (confirmed_peaks s @ potential_peaks s)) \<and>
     (\<forall>pk \<in> set (confirmed_peaks s). fst pk \<le> sample_count s - 2)"

definition detector_inv :: "PeakDetectorSingleSample \<Rightarrow> bool" where
  "detector_inv s \<longleftrightarrow>
     mid_inv s \<and>
     (\<forall>pk \<in> set (potential_peaks s). sample_count s - buffer_size s < fst pk)"

definition width_rejects :: "PeakDetectorSingleSample \<Rightarrow> peak \<Rightarrow> bool" where
  "width_rejects s pk \<longleftrightarrow>
     truthy (width s) \<and> real_of_int (the (ss_calculate_width s pk)) < the (width s)"

definition accepts :: "PeakDetectorSingleSample \<Rightarrow> peak \<Rightarrow> bool" where
  "accepts s pk \<longleftrightarrow>
     \<not> distance_rejects s pk \<and> \<not> prominence_rejects s pk \<and> \<not> width_rejects s pk"

fun resolve :: "peak list \<Rightarrow> PeakDetectorSingleSample \<Rightarrow> PeakDetectorSingleSample" where
  "resolve [] s = s"
| "resolve (pk # rest) s =
     resolve rest
       (if due s pk \<and> accepts s pk then s\<lparr>confirmed_peaks := confirmed_peaks s @ [pk]\<rparr> else s)"

definition step :: "real \<Rightarrow> PeakDetectorSingleSample \<Rightarrow> PeakDetectorSingleSample" where
  "step x s =
     (let m = after_check x s
      in if sample_count m \<ge> buffer_size m
         then (resolve (potential_peaks m) m)
                \<lparr>potential_peaks := filter (\<lambda>pk. \<not> due m pk) (potential_peaks m)\<rparr>
         else m)"


definition agree_on_written :: "PeakDetectorSingleSample \<Rightarrow> PeakDetectorSingleSample \<Rightarrow> bool" where
  "agree_on_written s t \<longleftrightarrow>
     threshold s = threshold t \<and> min_distance s = min_distance t \<and>
     prominence s = prominence t \<and> width s = width t \<and>
     buffer_size s = buffer_size t \<and> buffer_index s = buffer_index t \<and>
     potential_peaks s = potential_peaks t \<and> confirmed_peaks s = confirmed_peaks t \<and>
     sample_count s = sample_count t \<and> length (buffer s) = length (buffer t) \<and>
     (\<forall>i < nat (min (sample_count s) (buffer_size s)). buffer s ! i = buffer t ! i)"

text \<open>
  For the comparison of two runs that differ in a filter value: the condition under which
  the loop of \<open>detect_peaks\<close> takes a \<open>continue\<close>, one optional value being the other
  one raised, and the relation between the two lists of confirmed peaks that the greedy
  distance check maintains.
\<close>

definition batch_rejects :: "PeakDetector \<Rightarrow> nat \<Rightarrow> bool" where
  "batch_rejects D peak \<longleftrightarrow>
     (case prominence D of None \<Rightarrow> False
      | Some p \<Rightarrow> calculate_prominence (signal D) peak < p) \<or>
     (case width D of None \<Rightarrow> False
      | Some wd \<Rightarrow> real_of_int (calculate_width (signal D) (threshold D) peak) < wd)"

definition raised :: "real option \<Rightarrow> real option \<Rightarrow> bool" where
  "raised a b \<longleftrightarrow> a = b \<or> (\<exists>u v. a = Some u \<and> b = Some v \<and> u \<le> v)"

definition ahead :: "peak list \<Rightarrow> peak list \<Rightarrow> bool" where
  "ahead c1 c2 \<longleftrightarrow>
     length c2 \<le> length c1 \<and>
     (length c2 = length c1 \<and> c2 \<noteq> [] \<longrightarrow> fst (last c1) \<le> fst (last c2))"

definition stricter_run :: "PeakDetectorSingleSample \<Rightarrow> PeakDetectorSingleSample \<Rightarrow> bool" where
  "stricter_run s1 s2 \<longleftrightarrow>
     threshold s1 = threshold s2 \<and> min_distance s1 = min_distance s2 \<and>
     buffer_size s1 = buffer_size s2 \<and> buffer s1 = buffer s2 \<and>
     buffer_index s1 = buffer_index s2 \<and> potential_peaks s1 = potential_peaks s2 \<and>
     sample_count s1 = sample_count s2 \<and>
     raised (prominence s1) (prominence s2) \<and> raised (width s1) (width s2) \<and>
     ahead (confirmed_peaks s1) (confirmed_peaks s2)"

section \<open>Properties of the batch detector\<close>

subsection \<open>The distance filter\<close>

lemma enforce_loop_greedy:
  "acc \<noteq> [] \<Longrightarrow> enforce_loop ps d acc = acc @ greedy_keep d (last acc) ps"
  by (induction ps arbitrary: acc) auto

lemma enforce_eq_spec: "enforce_min_distance ps d = spec_distance_filter d ps"
proof (cases ps)
  case Nil
  then show ?thesis by (simp add: enforce_min_distance_def)
next
  case (Cons p qs)
  then show ?thesis
    by (cases qs) (simp_all add: enforce_min_distance_def enforce_loop_greedy)
qed

lemma greedy_keep_subset: "set (greedy_keep d l ps) \<subseteq> set ps"
  by (induction ps arbitrary: l) auto

lemma greedy_keep_far_from_last:
  "sorted_wrt (<) (l # ps) \<Longrightarrow> q \<in> set (greedy_keep d l ps) \<Longrightarrow> int q - int l \<ge> d"
proof (induction ps arbitrary: l)
  case Nil
  then show ?case by simp
next
  case (Cons x xs)
  show ?case
  proof (cases "int x - int l \<ge> d")
    case True
    with Cons.prems have "q = x \<or> q \<in> set (greedy_keep d x xs)" by simp
    then show ?thesis
    proof
      assume "q = x" with True show ?thesis by simp
    next
      assume q: "q \<in> set (greedy_keep d x xs)"
      from Cons.prems have "sorted_wrt (<) (x # xs)" by simp
      from Cons.IH[OF this q] have "int q - int x \<ge> d" .
      moreover from Cons.prems have "l < x" by simp
      ultimately show ?thesis by linarith
    qed
  next
    case False
    with Cons.prems have q: "q \<in> set (greedy_keep d l xs)" by simp
    from Cons.prems have "sorted_wrt (<) (l # xs)" by auto
    from Cons.IH[OF this q] show ?thesis .
  qed
qed

lemma greedy_keep_pairwise_far:
  "sorted_wrt (<) (l # ps) \<Longrightarrow> p \<in> set (greedy_keep d l ps) \<Longrightarrow>
   q \<in> set (greedy_keep d l ps) \<Longrightarrow> p < q \<Longrightarrow> int q - int p \<ge> d"
proof (induction ps arbitrary: l)
  case Nil
  then show ?case by simp
next
  case (Cons x xs)
  from Cons.prems have sx: "sorted_wrt (<) (x # xs)" and sl: "sorted_wrt (<) (l # xs)" by auto
  show ?case
  proof (cases "int x - int l \<ge> d")
    case True
    have above: "\<And>r. r \<in> set (greedy_keep d x xs) \<Longrightarrow> x < r"
      using greedy_keep_subset[of d x xs] sx by auto
    from True Cons.prems have p: "p = x \<or> p \<in> set (greedy_keep d x xs)"
      and q: "q = x \<or> q \<in> set (greedy_keep d x xs)" by simp_all
    show ?thesis
    proof (cases "p = x")
      case True
      with q \<open>p < q\<close> have "q \<in> set (greedy_keep d x xs)" by auto
      from greedy_keep_far_from_last[OF sx this] True show ?thesis by simp
    next
      case False
      with p have p': "p \<in> set (greedy_keep d x xs)" by simp
      with above have "x < p" by simp
      with \<open>p < q\<close> q have q': "q \<in> set (greedy_keep d x xs)" by auto
      from Cons.IH[OF sx p' q' \<open>p < q\<close>] show ?thesis .
    qed
  next
    case False
    with Cons.prems have "p \<in> set (greedy_keep d l xs)" "q \<in> set (greedy_keep d l xs)" by simp_all
    from Cons.IH[OF sl this \<open>p < q\<close>] show ?thesis .
  qed
qed

lemma spec_filter_pairwise_far:
  assumes "sorted_wrt (<) ps" "p \<in> set (spec_distance_filter d ps)"
    "q \<in> set (spec_distance_filter d ps)" "p < q"
  shows "int q - int p \<ge> d"
proof (cases ps)
  case Nil
  with assms show ?thesis by simp
next
  case (Cons x xs)
  have above: "\<And>r. r \<in> set (greedy_keep d x xs) \<Longrightarrow> x < r"
    using greedy_keep_subset[of d x xs] assms(1) Cons by auto
  from assms Cons have s: "sorted_wrt (<) (x # xs)" by simp
  show ?thesis
  proof (cases "p = x")
    case True
    with assms Cons have "q \<in> set (greedy_keep d x xs)" by auto
    from greedy_keep_far_from_last[OF s this] True show ?thesis by simp
  next
    case False
    with assms Cons have p': "p \<in> set (greedy_keep d x xs)" by simp
    with above have "x < p" by simp
    with assms Cons have q': "q \<in> set (greedy_keep d x xs)" by auto
    from greedy_keep_pairwise_far[OF s p' q' assms(4)] show ?thesis .
  qed
qed

lemma greedy_keep_sorted:
  "sorted_wrt (<) (l # ps) \<Longrightarrow> sorted_wrt (<) (l # greedy_keep d l ps)"
proof (induction ps arbitrary: l)
  case Nil
  then show ?case by simp
next
  case (Cons x xs)
  from Cons.prems have sx: "sorted_wrt (<) (x # xs)" and sl: "sorted_wrt (<) (l # xs)"
    and lx: "l < x" by auto
  show ?case
  proof (cases "int x - int l \<ge> d")
    case True
    from Cons.IH[OF sx] lx True show ?thesis by auto
  next
    case False
    from Cons.IH[OF sl] False show ?thesis by simp
  qed
qed

lemma spec_filter_sorted:
  assumes "sorted_wrt (<) ps"
  shows "sorted_wrt (<) (spec_distance_filter d ps)"
proof (cases ps)
  case Nil
  then show ?thesis by simp
next
  case (Cons x xs)
  with assms greedy_keep_sorted[of x xs d] show ?thesis by simp
qed

lemma initial_peaks_sorted: "sorted_wrt (<) (initial_peaks sig th)"
  by (simp add: initial_peaks_def sorted_wrt_filter)

text \<open>
  C6 (as amended). The distance filter is the greedy left-to-right scan of the
  specification: it keeps the first candidate, and keeps a later one iff it is at least
  \<open>min_distance\<close> after the last kept one. On an increasing candidate list, a candidate
  that comes less than \<open>min_distance\<close> after a kept candidate is dropped; signal values
  play no part.
\<close>

theorem enforce_min_distance_greedy:
  "enforce_min_distance ps d = spec_distance_filter d ps \<and>
   (ps \<noteq> [] \<longrightarrow> hd (enforce_min_distance ps d) = hd ps) \<and>
   (sorted_wrt (<) ps \<longrightarrow>
      (\<forall>p q. p \<in> set (enforce_min_distance ps d) \<and> q \<in> set ps \<and> p < q \<and> int q - int p < d
         \<longrightarrow> q \<notin> set (enforce_min_distance ps d)))"
proof (intro conjI impI allI)
  show "enforce_min_distance ps d = spec_distance_filter d ps" by (rule enforce_eq_spec)
next
  assume "ps \<noteq> []"
  then show "hd (enforce_min_distance ps d) = hd ps"
    by (cases ps) (simp_all add: enforce_eq_spec)
next
  fix p q
  assume s: "sorted_wrt (<) ps"
    and h: "p \<in> set (enforce_min_distance ps d) \<and> q \<in> set ps \<and> p < q \<and> int q - int p < d"
  show "q \<notin> set (enforce_min_distance ps d)"
  proof
    assume "q \<in> set (enforce_min_distance ps d)"
    with h spec_filter_pairwise_far[OF s, of p d q] show False
      by (simp add: enforce_eq_spec)
  qed
qed

theorem enforce_min_distance_greedy_witness:
  "[1, 3, 5 :: nat] \<noteq> [] \<and> sorted_wrt (<) [1, 3, 5 :: nat] \<and>
   hd (enforce_min_distance [1, 3, 5] 3) = hd [1, 3, 5] \<and>
   1 \<in> set (enforce_min_distance [1, 3, 5] 3) \<and> 3 \<in> set [1, 3, 5 :: nat] \<and>
   (1 :: nat) < 3 \<and> int 3 - int 1 < 3 \<and> 3 \<notin> set (enforce_min_distance [1, 3, 5] 3)"
proof -
  have k: "1 \<in> set (enforce_min_distance [1, 3, 5] 3)"
    by (simp add: enforce_min_distance_def)
  have s: "sorted_wrt (<) [1, 3, 5 :: nat]" by simp
  have n: "[1, 3, 5 :: nat] \<noteq> []" by simp
  have m: "3 \<in> set [1, 3, 5 :: nat]" "(1 :: nat) < 3" "int 3 - int 1 < 3" by simp_all
  note t = enforce_min_distance_greedy[of "[1, 3, 5]" 3]
  from t n have h: "hd (enforce_min_distance [1, 3, 5] 3) = hd [1, 3, 5]" by blast
  from t s have "\<forall>p q. p \<in> set (enforce_min_distance [1, 3, 5] 3) \<and> q \<in> set [1, 3, 5] \<and>
      p < q \<and> int q - int p < 3 \<longrightarrow> q \<notin> set (enforce_min_distance [1, 3, 5] 3)"
    by blast
  with k m have "3 \<notin> set (enforce_min_distance [1, 3, 5] 3)" by blast
  with k s n m h show ?thesis by blast
qed

text \<open>
  C6 as stated fails: the candidates 3 and 5 are closer than \<open>min_distance = 3\<close>, yet
  the earlier one is dropped (it is too close to 1) and the later one is kept.
\<close>

theorem enforce_min_distance_earlier_dropped_counterexample:
  "3 \<in> set [1, 3, 5 :: nat] \<and> 5 \<in> set [1, 3, 5 :: nat] \<and> int 5 - int 3 < 3 \<and>
   3 \<notin> set (enforce_min_distance [1, 3, 5] 3) \<and> 5 \<in> set (enforce_min_distance [1, 3, 5] 3)"
  by (simp add: enforce_min_distance_def)

text \<open>
  C5. On the signal \<open>[0,1,0,2,0,1,0]\<close> with threshold 0 the detector returns the peaks
  \<open>[1,3,5]\<close> for \<open>min_distance = 1\<close> and \<open>[1,5]\<close> for \<open>min_distance = 3\<close>.
\<close>

theorem detect_peaks_spike_example:
  "fst (detect_peaks (PeakDetector_init [0, 1, 0, 2, 0, 1, 0] 0 1 None None)) = [1, 3, 5] \<and>
   fst (detect_peaks (PeakDetector_init [0, 1, 0, 2, 0, 1, 0] 0 3 None None)) = [1, 5]"
  by code_simp

subsection \<open>The returned peaks and the property lists\<close>

text \<open>
  C1. With the width filter at 5 on the signal \<open>[0,1,0]\<close>, the only candidate has width 2
  and is filtered out of the three property lists, but the peaks returned are the
  distance-filtered list, which still holds it: the lists have different lengths.
\<close>

theorem detect_peaks_returns_unfiltered_peaks:
  "detect_peaks (PeakDetector_init [0, 1, 0] 0 1 None (Some 5)) =
     ([1], \<lparr>heights = [], prominences = [], widths = []\<rparr>)"
  by code_simp

subsection \<open>The batch prominence\<close>

lemma left_walk_le: "left_base_walk sig n \<le> n"
  by (induction n) auto

lemma left_walk_mono: "left_base_walk sig n \<le> i \<Longrightarrow> i \<le> n \<Longrightarrow> sig ! n \<le> sig ! i"
proof (induction n)
  case 0 then show ?case by simp
next
  case (Suc n)
  show ?case
  proof (cases "i = Suc n")
    case True then show ?thesis by simp
  next
    case False
    with Suc.prems have iln: "i \<le> n" by simp
    show ?thesis
    proof (cases "sig ! Suc n \<le> sig ! n")
      case True
      with Suc.prems have "left_base_walk sig n \<le> i" by simp
      from Suc.IH[OF this iln] True show ?thesis by simp
    next
      case False
      with Suc.prems iln show ?thesis by simp
    qed
  qed
qed

lemma right_walk_ge: "n \<le> right_base_walk sig n"
proof (induction sig n rule: right_base_walk.induct)
  case (1 sig rb)
  show ?case
  proof (cases "rb < length sig - 1 \<and> sig ! rb \<le> sig ! (rb + 1)")
    case True
    from "1.IH"[OF True] True show ?thesis by (subst right_base_walk.simps) simp
  next
    case False
    then show ?thesis by (subst right_base_walk.simps) auto
  qed
qed

lemma right_walk_lt: "n < length sig \<Longrightarrow> right_base_walk sig n < length sig"
proof (induction sig n rule: right_base_walk.induct)
  case (1 sig rb)
  show ?case
  proof (cases "rb < length sig - 1 \<and> sig ! rb \<le> sig ! (rb + 1)")
    case True
    then have "rb + 1 < length sig" by linarith
    from "1.IH"[OF True this] True show ?thesis by (subst right_base_walk.simps) simp
  next
    case False
    with "1.prems" show ?thesis by (subst right_base_walk.simps) auto
  qed
qed

lemma right_walk_mono: "n \<le> i \<Longrightarrow> i \<le> right_base_walk sig n \<Longrightarrow> sig ! n \<le> sig ! i"
proof (induction sig n rule: right_base_walk.induct)
  case (1 sig rb)
  show ?case
  proof (cases "i = rb")
    case True then show ?thesis by simp
  next
    case False
    with "1.prems" have lt: "rb + 1 \<le> i" by simp
    show ?thesis
    proof (cases "rb < length sig - 1 \<and> sig ! rb \<le> sig ! (rb + 1)")
      case True
      then have eq: "right_base_walk sig rb = right_base_walk sig (rb + 1)"
        by (subst right_base_walk.simps) simp
      from "1.IH"[OF True lt] "1.prems" eq have "sig ! (rb + 1) \<le> sig ! i" by simp
      with True show ?thesis by simp
    next
      case F2: False
      then have "right_base_walk sig rb = rb" by (subst right_base_walk.simps) auto
      with "1.prems" False show ?thesis by simp
    qed
  qed
qed

lemma slice_nth: "b \<le> length xs \<Longrightarrow> k < b - a \<Longrightarrow> slice xs a b ! k = xs ! (a + k)"
  by (simp add: slice_def)

lemma slice_length: "b \<le> length xs \<Longrightarrow> length (slice xs a b) = b - a"
  by (simp add: slice_def)

lemma min_list_slice_eq:
  assumes b: "b \<le> length xs" and m: "a \<le> m" "m < b"
    and low: "\<And>i. a \<le> i \<Longrightarrow> i < b \<Longrightarrow> xs ! m \<le> xs ! i"
  shows "min_list (slice xs a b) = (xs ! m :: real)"
proof -
  have ne: "slice xs a b \<noteq> []" using slice_length[OF b, of a] m by auto
  have mem: "xs ! m \<in> set (slice xs a b)"
  proof -
    have "slice xs a b ! (m - a) = xs ! m" using slice_nth[OF b, of "m - a" a] m by simp
    moreover have "m - a < length (slice xs a b)" using slice_length[OF b, of a] m by simp
    ultimately show ?thesis by (metis nth_mem)
  qed
  have lb: "\<forall>y \<in> set (slice xs a b). xs ! m \<le> y"
  proof
    fix y assume "y \<in> set (slice xs a b)"
    then obtain k where k: "k < length (slice xs a b)" "slice xs a b ! k = y"
      by (auto simp: in_set_conv_nth)
    then have "k < b - a" using slice_length[OF b, of a] by simp
    then have "y = xs ! (a + k)" "a + k < b" using slice_nth[OF b, of k a] k by auto
    with low[of "a + k"] show "xs ! m \<le> y" by simp
  qed
  have "Min (set (slice xs a b)) = xs ! m"
    by (rule Min_eqI) (use mem lb in auto)
  with ne show ?thesis by (simp add: min_list_Min)
qed

lemma calculate_prominence_zero:
  assumes "peak < length sig"
  shows "calculate_prominence sig peak = 0"
proof -
  have l: "min_list (slice sig (left_base_walk sig peak) (peak + 1)) = sig ! peak"
    by (rule min_list_slice_eq) (use assms left_walk_le[of sig peak] left_walk_mono[of sig peak] in auto)
  have r: "min_list (slice sig peak (right_base_walk sig peak + 1)) = sig ! peak"
    by (rule min_list_slice_eq)
       (use assms right_walk_lt[of peak sig] right_walk_ge[of peak sig] right_walk_mono[of peak _ sig] in auto)
  show ?thesis unfolding calculate_prominence_def Let_def l r by simp
qed

text \<open>
  C2. On \<open>[0,1,0]\<close> the peak at index 1 has prominence 1 by descending to the bases on
  both sides; \<open>_calculate_prominence\<close> walks while the neighbour is at least as high,
  stays on the peak, and returns 0 (as it does on every signal, lemma
  \<open>calculate_prominence_zero\<close>).
\<close>

theorem calculate_prominence_not_descending:
  "is_candidate [0, 1, 0] 0 1 \<and> calculate_prominence [0, 1, 0] 1 = 0 \<and>
   spec_prominence [0, 1, 0] 1 = 1"
  by code_simp

section \<open>Properties of the single-sample detector\<close>

subsection \<open>The width loops return\<close>

lemma mod_dec: "0 < l \<Longrightarrow> l < bs \<Longrightarrow> (l - 1) mod bs = (l - 1 :: int)"
  by simp

lemma mod_wrap_down: "0 < bs \<Longrightarrow> (0 - 1) mod bs = (bs - 1 :: int)"
  by (simp add: zmod_minus1)

lemma left_loop_above:
  "0 < bs \<Longrightarrow> 0 \<le> pidx \<Longrightarrow> pidx < l \<Longrightarrow> l < bs \<Longrightarrow> 
   \<exists>r. width_left_loop buf bs hh pidx l = Some r \<and> 0 \<le> r \<and> r < bs"
proof (induction "nat (l - pidx)" arbitrary: l)
  case 0
  then show ?case by simp
next
  case (Suc n)
  have step: "(l - 1) mod bs = l - 1" using Suc.prems by simp
  show ?case
  proof (cases "buf ! nat l > hh")
    case False
    then show ?thesis using Suc.prems by (subst width_left_loop.simps) simp
  next
    case True
    show ?thesis
    proof (cases "l - 1 = pidx")
      case True
      with \<open>buf ! nat l > hh\<close> step Suc.prems show ?thesis
        by (subst width_left_loop.simps) simp
    next
      case False
      have "n = nat ((l - 1) - pidx)" using Suc.hyps(2) by linarith
      moreover have "pidx < l - 1" "l - 1 < bs" using False Suc.prems by linarith+
      ultimately obtain r where "width_left_loop buf bs hh pidx (l - 1) = Some r \<and> 0 \<le> r \<and> r < bs"
        using Suc.hyps(1)[of "l - 1"] Suc.prems by blast
      with True False step show ?thesis
        by (subst width_left_loop.simps) simp
    qed
  qed
qed

lemma left_loop_below:
  "0 < bs \<Longrightarrow> 0 \<le> l \<Longrightarrow> l \<le> pidx \<Longrightarrow> pidx < bs \<Longrightarrow> 
   \<exists>r. width_left_loop buf bs hh pidx l = Some r \<and> 0 \<le> r \<and> r < bs"
proof (induction "nat l" arbitrary: l)
  case 0
  then have l0: "l = 0" by simp
  have step: "(l - 1) mod bs = bs - 1" using l0 0 by (simp add: zmod_minus1)
  show ?case
  proof (cases "buf ! nat l > hh")
    case False
    then show ?thesis using 0 by (subst width_left_loop.simps) simp
  next
    case True
    show ?thesis
    proof (cases "bs - 1 = pidx")
      case True
      with \<open>buf ! nat l > hh\<close> step 0 show ?thesis
        by (subst width_left_loop.simps) simp
    next
      case False
      then have "pidx < bs - 1" using 0 by linarith
      from left_loop_above[OF \<open>0 < bs\<close> _ this, of buf hh] 0
      obtain r where "width_left_loop buf bs hh pidx (bs - 1) = Some r \<and> 0 \<le> r \<and> r < bs"
        by auto
      with True False step show ?thesis
        by (subst width_left_loop.simps) simp
    qed
  qed
next
  case (Suc n)
  have step: "(l - 1) mod bs = l - 1" using Suc by simp
  show ?case
  proof (cases "buf ! nat l > hh")
    case False
    then show ?thesis using Suc.prems by (subst width_left_loop.simps) simp
  next
    case True
    have ne: "l - 1 \<noteq> pidx" using Suc.prems by linarith
    have "n = nat (l - 1)" using Suc.hyps(2) by linarith
    moreover have "0 \<le> l - 1" "l - 1 \<le> pidx" using Suc by linarith+
    ultimately obtain r where "width_left_loop buf bs hh pidx (l - 1) = Some r \<and> 0 \<le> r \<and> r < bs"
      using Suc.hyps(1)[of "l - 1"] Suc.prems by blast
    with True ne step show ?thesis
      by (subst width_left_loop.simps) simp
  qed
qed

lemma width_left_loop_total:
  assumes "0 < bs" "0 \<le> pidx" "pidx < bs" "0 \<le> l" "l < bs"
  shows "\<exists>r. width_left_loop buf bs hh pidx l = Some r \<and> 0 \<le> r \<and> r < bs"
proof (cases "l \<le> pidx")
  case True
  from left_loop_below[OF assms(1) assms(4) True assms(3)] show ?thesis .
next
  case False
  then have "pidx < l" by simp
  from left_loop_above[OF assms(1) assms(2) this assms(5)] show ?thesis .
qed


lemma right_loop_below:
  "0 < bs \<Longrightarrow> 0 \<le> r \<Longrightarrow> r < pidx \<Longrightarrow> pidx < bs \<Longrightarrow>
   \<exists>y. width_right_loop buf bs hh pidx r = Some y \<and> 0 \<le> y \<and> y < bs"
proof (induction "nat (pidx - r)" arbitrary: r)
  case 0
  then show ?case by simp
next
  case (Suc n)
  have step: "(r + 1) mod bs = r + 1" using Suc.prems by simp
  show ?case
  proof (cases "buf ! nat r > hh")
    case False
    then show ?thesis using Suc.prems by (subst width_right_loop.simps) simp
  next
    case True
    show ?thesis
    proof (cases "r + 1 = pidx")
      case True
      with \<open>buf ! nat r > hh\<close> step Suc.prems show ?thesis
        by (subst width_right_loop.simps) simp
    next
      case False
      have "n = nat (pidx - (r + 1))" using Suc.hyps(2) by linarith
      moreover have "r + 1 < pidx" "0 \<le> r + 1" using False Suc.prems by linarith+
      ultimately obtain y where
        "width_right_loop buf bs hh pidx (r + 1) = Some y \<and> 0 \<le> y \<and> y < bs"
        using Suc.hyps(1)[of "r + 1"] Suc.prems by blast
      with True False step show ?thesis
        by (subst width_right_loop.simps) simp
    qed
  qed
qed

lemma right_loop_above:
  "0 < bs \<Longrightarrow> 0 \<le> pidx \<Longrightarrow> pidx \<le> r \<Longrightarrow> r < bs \<Longrightarrow>
   \<exists>y. width_right_loop buf bs hh pidx r = Some y \<and> 0 \<le> y \<and> y < bs"
proof (induction "nat (bs - r)" arbitrary: r)
  case 0
  then show ?case by simp
next
  case (Suc n)
  show ?case
  proof (cases "buf ! nat r > hh")
    case False
    then show ?thesis using Suc.prems by (subst width_right_loop.simps) simp
  next
    case True
    show ?thesis
    proof (cases "r = bs - 1")
      case last: True
      then have step: "(r + 1) mod bs = 0" by simp
      show ?thesis
      proof (cases "pidx = 0")
        case True
        with \<open>buf ! nat r > hh\<close> step Suc.prems show ?thesis
          by (subst width_right_loop.simps) simp
      next
        case False
        then have "0 < pidx" using Suc.prems by linarith
        from right_loop_below[OF \<open>0 < bs\<close> _ this, of buf hh] Suc.prems
        obtain y where "width_right_loop buf bs hh pidx 0 = Some y \<and> 0 \<le> y \<and> y < bs"
          by auto
        with True False step show ?thesis
          by (subst width_right_loop.simps) simp
      qed
    next
      case False
      then have lt: "r + 1 < bs" using Suc.prems by linarith
      then have step: "(r + 1) mod bs = r + 1" using Suc.prems by simp
      have ne: "r + 1 \<noteq> pidx" using Suc.prems by linarith
      have "n = nat (bs - (r + 1))" using Suc.hyps(2) by linarith
      moreover have "pidx \<le> r + 1" using Suc.prems by linarith
      ultimately obtain y where
        "width_right_loop buf bs hh pidx (r + 1) = Some y \<and> 0 \<le> y \<and> y < bs"
        using Suc.hyps(1)[of "r + 1"] Suc.prems lt by blast
      with True ne step show ?thesis
        by (subst width_right_loop.simps) simp
    qed
  qed
qed

lemma width_right_loop_total:
  assumes "0 < bs" "0 \<le> pidx" "pidx < bs" "0 \<le> r" "r < bs"
  shows "\<exists>y. width_right_loop buf bs hh pidx r = Some y \<and> 0 \<le> y \<and> y < bs"
proof (cases "pidx \<le> r")
  case True
  from right_loop_above[OF assms(1) assms(2) True assms(5)] show ?thesis .
next
  case False
  then have "r < pidx" by simp
  from right_loop_below[OF assms(1) assms(4) this assms(3)] show ?thesis .
qed

lemma ss_calculate_width_total:
  assumes "0 < buffer_size s"
  shows "\<exists>w. ss_calculate_width s pk = Some w \<and> 0 < w"
proof -
  let ?bs = "buffer_size s"
  let ?p = "fst pk mod ?bs"
  have p: "0 \<le> ?p" "?p < ?bs" using assms by simp_all
  obtain l where l: "width_left_loop (buffer s) ?bs ((snd pk + threshold s) / 2) ?p ?p = Some l"
      "0 \<le> l" "l < ?bs"
    using width_left_loop_total[OF assms p p] by blast
  obtain r where r: "width_right_loop (buffer s) ?bs ((snd pk + threshold s) / 2) ?p ?p = Some r"
      "0 \<le> r" "r < ?bs"
    using width_right_loop_total[OF assms p p] by blast
  have "0 < (if r > l then r - l else ?bs - l + r)" using l r by simp
  with l r show ?thesis by (simp add: ss_calculate_width_def Let_def)
qed

lemma check_peak_validity_eq:
  assumes "0 < buffer_size s"
  shows "check_peak_validity s pk = Some (accepts s pk)"
proof -
  obtain w where "ss_calculate_width s pk = Some w" using ss_calculate_width_total[OF assms] by blast
  then show ?thesis by (auto simp: check_peak_validity_def accepts_def width_rejects_def)
qed

subsection \<open>The resolution loop and one ingestion as total functions\<close>

lemma due_confirmed_update [simp]: "due (s\<lparr>confirmed_peaks := c\<rparr>) pk = due s pk"
  by (simp add: due_def)

lemma resolve_fields [simp]:
  "buffer_size (resolve pks s) = buffer_size s"
  "buffer (resolve pks s) = buffer s"
  "buffer_index (resolve pks s) = buffer_index s"
  "potential_peaks (resolve pks s) = potential_peaks s"
  "sample_count (resolve pks s) = sample_count s"
  "threshold (resolve pks s) = threshold s"
  "min_distance (resolve pks s) = min_distance s"
  "prominence (resolve pks s) = prominence s"
  "width (resolve pks s) = width s"
  by (induction pks arbitrary: s) auto

lemma due_resolve [simp]: "due (resolve pks s) pk = due s pk"
  by (simp add: due_def)

lemma process_loop_eq:
  "0 < buffer_size s \<Longrightarrow>
   process_loop pks s new = Some (resolve pks s, new @ filter (\<lambda>pk. \<not> due s pk) pks)"
proof (induction pks arbitrary: s new)
  case Nil
  then show ?case by simp
next
  case (Cons pk rest)
  show ?case
  proof (cases "due s pk")
    case True
    let ?s' = "if accepts s pk then s\<lparr>confirmed_peaks := confirmed_peaks s @ [pk]\<rparr> else s"
    have bs: "0 < buffer_size ?s'" using Cons.prems by simp
    have d: "\<And>q. due ?s' q = due s q" by simp
    from True have "process_loop (pk # rest) s new = process_loop rest ?s' new"
      using check_peak_validity_eq[OF Cons.prems, of pk] by (simp add: due_def)
    also have "\<dots> = Some (resolve rest ?s', new @ filter (\<lambda>pk. \<not> due ?s' pk) rest)"
      by (rule Cons.IH[OF bs])
    finally show ?thesis using True d by simp
  next
    case False
    then have "process_loop (pk # rest) s new = process_loop rest s (new @ [pk])"
      by (simp add: due_def)
    with Cons.IH[OF Cons.prems, of "new @ [pk]"] False show ?thesis by simp
  qed
qed

lemma process_potential_peaks_eq:
  "0 < buffer_size s \<Longrightarrow>
   process_potential_peaks s =
     Some ((resolve (potential_peaks s) s)
             \<lparr>potential_peaks := filter (\<lambda>pk. \<not> due s pk) (potential_peaks s)\<rparr>)"
  by (simp add: process_potential_peaks_def process_loop_eq)

lemma after_check_fields [simp]:
  "buffer_size (after_check x s) = buffer_size s"
  "buffer (after_check x s) = (buffer s)[nat (buffer_index s) := x]"
  "buffer_index (after_check x s) = (buffer_index s + 1) mod buffer_size s"
  "confirmed_peaks (after_check x s) = confirmed_peaks s"
  "sample_count (after_check x s) = sample_count s + 1"
  "threshold (after_check x s) = threshold s"
  "min_distance (after_check x s) = min_distance s"
  "prominence (after_check x s) = prominence s"
  "width (after_check x s) = width s"
  by (simp_all add: after_check_def check_potential_peak_def Let_def)

lemma add_sample_eq:
  assumes "0 < buffer_size s" "0 \<le> buffer_index s" "buffer_index s < int (length (buffer s))"
  shows "add_sample x s = Some (Inr (step x s))"
proof -
  have w: "list_setitem (buffer s) (buffer_index s) x = Inr ((buffer s)[nat (buffer_index s) := x])"
    using assms by (simp add: list_setitem_def Let_def)
  have m: "add_sample x s =
      (if sample_count (after_check x s) \<ge> buffer_size (after_check x s)
       then map_option Inr (process_potential_peaks (after_check x s))
       else Some (Inr (after_check x s)))"
    unfolding add_sample_def after_check_def Let_def using w by simp
  show ?thesis
    unfolding m step_def Let_def using assms(1) by (simp add: process_potential_peaks_eq)
qed

subsection \<open>Invariants of the states of a run\<close>

lemma mod_neq_close:
  fixes a b bs :: int
  assumes "0 < a - b" "a - b < bs"
  shows "a mod bs \<noteq> b mod bs"
proof
  assume "a mod bs = b mod bs"
  then have "(a - b) mod bs = 0" by (metis mod_diff_cong diff_self mod_0)
  moreover have "(a - b) mod bs = a - b" using assms by simp
  ultimately show False using assms by simp
qed

lemma after_check_potential:
  "\<exists>new. potential_peaks (after_check x s) = potential_peaks s @ new \<and> length new \<le> 1 \<and>
     (\<forall>pk \<in> set new. fst pk = sample_count s - 1 \<and> 2 \<le> sample_count s \<and>
        snd pk = (buffer s)[nat (buffer_index s) := x] !
                   nat (((buffer_index s + 1) mod buffer_size s - 2) mod buffer_size s))"
  by (simp add: after_check_def check_potential_peak_def Let_def)

lemma after_check_mid_inv:
  assumes "detector_inv s"
  shows "mid_inv (after_check x s)"
proof -
  let ?m = "after_check x s"
  let ?bs = "buffer_size s"
  let ?sc = "sample_count s"
  from assms have bs: "0 < ?bs" and len: "length (buffer s) = nat ?bs" and sc: "0 \<le> ?sc"
    and bi: "buffer_index s = ?sc mod ?bs"
    and pend: "\<forall>pk \<in> set (potential_peaks s). 1 \<le> fst pk \<and> fst pk \<le> ?sc - 2 \<and>
        buffer s ! nat (fst pk mod ?bs) = snd pk \<and> ?sc - ?bs < fst pk"
    and srt: "sorted_wrt (<) (map fst (confirmed_peaks s @ potential_peaks s))"
    and conf: "\<forall>pk \<in> set (confirmed_peaks s). fst pk \<le> ?sc - 2"
    by (auto simp: detector_inv_def mid_inv_def buffer_ok_def)
  obtain new where new: "potential_peaks ?m = potential_peaks s @ new"
    and newp: "\<forall>pk \<in> set new. fst pk = ?sc - 1 \<and> 2 \<le> ?sc \<and>
        snd pk = (buffer s)[nat (buffer_index s) := x] !
                   nat (((buffer_index s + 1) mod ?bs - 2) mod ?bs)"
    and newl: "length new \<le> 1"
    using after_check_potential[of x s] by blast
  have ok: "buffer_ok ?m" using bs len by (simp add: buffer_ok_def)
  have bi': "buffer_index ?m = sample_count ?m mod buffer_size ?m"
    using bi by (simp add: mod_add_left_eq)
  have old: "\<forall>pk \<in> set (potential_peaks s). 1 \<le> fst pk \<and> fst pk \<le> sample_count ?m - 2 \<and>
       buffer ?m ! nat (fst pk mod ?bs) = snd pk"
  proof
    fix pk assume pk: "pk \<in> set (potential_peaks s)"
    with pend have p: "1 \<le> fst pk" "fst pk \<le> ?sc - 2" "buffer s ! nat (fst pk mod ?bs) = snd pk"
      "?sc - ?bs < fst pk" by auto
    have "?sc mod ?bs \<noteq> fst pk mod ?bs" by (rule mod_neq_close) (use p in linarith)+
    moreover have "0 \<le> ?sc mod ?bs" "0 \<le> fst pk mod ?bs" using bs by simp_all
    ultimately have "nat (buffer_index s) \<noteq> nat (fst pk mod ?bs)" using bi by simp
    then have "buffer ?m ! nat (fst pk mod ?bs) = buffer s ! nat (fst pk mod ?bs)" by simp
    with p show "1 \<le> fst pk \<and> fst pk \<le> sample_count ?m - 2 \<and>
       buffer ?m ! nat (fst pk mod ?bs) = snd pk" by simp
  qed
  have nw: "\<forall>pk \<in> set new. 1 \<le> fst pk \<and> fst pk \<le> sample_count ?m - 2 \<and>
       buffer ?m ! nat (fst pk mod ?bs) = snd pk"
  proof
    fix pk assume "pk \<in> set new"
    with newp have p: "fst pk = ?sc - 1" "2 \<le> ?sc"
      "snd pk = (buffer s)[nat (buffer_index s) := x] !
                   nat (((buffer_index s + 1) mod ?bs - 2) mod ?bs)" by auto
    have "((buffer_index s + 1) mod ?bs - 2) mod ?bs = (?sc - 1) mod ?bs"
      using bi by (simp add: mod_diff_left_eq mod_add_left_eq)
    with p show "1 \<le> fst pk \<and> fst pk \<le> sample_count ?m - 2 \<and>
       buffer ?m ! nat (fst pk mod ?bs) = snd pk" by simp
  qed
  have srt': "sorted_wrt (<) (map fst (confirmed_peaks ?m @ potential_peaks ?m))"
  proof (cases new)
    case Nil
    with new srt show ?thesis by simp
  next
    case (Cons pk rest)
    with newl have r: "new = [pk]" by simp
    with newp have fp: "fst pk = ?sc - 1" by simp
    have "\<forall>q \<in> set (confirmed_peaks s @ potential_peaks s). fst q < fst pk"
      using pend conf fp by auto
    with srt have "sorted_wrt (<) (map fst ((confirmed_peaks s @ potential_peaks s) @ [pk]))"
      by (auto simp: sorted_wrt_append)
    with new r show ?thesis by simp
  qed
  have conf': "\<forall>pk \<in> set (confirmed_peaks ?m). fst pk \<le> sample_count ?m - 2"
    using conf by auto
  show ?thesis
    unfolding mid_inv_def using ok sc bi' old nw srt' conf' new by auto
qed

lemma due_mono: "\<not> due s p \<Longrightarrow> fst p \<le> fst q \<Longrightarrow> \<not> due s q"
  by (simp add: due_def)

lemma resolve_none_due: "\<forall>q \<in> set pks. \<not> due s q \<Longrightarrow> resolve pks s = s"
  by (induction pks arbitrary: s) auto

lemma resolve_confirmed_ext:
  "\<exists>C. confirmed_peaks (resolve pks s) = confirmed_peaks s @ C \<and>
       set C \<subseteq> {pk \<in> set pks. due s pk}"
proof (induction pks arbitrary: s)
  case Nil
  then show ?case by simp
next
  case (Cons pk rest)
  let ?s' = "if due s pk \<and> accepts s pk then s\<lparr>confirmed_peaks := confirmed_peaks s @ [pk]\<rparr> else s"
  from Cons[of ?s'] obtain C where C: "confirmed_peaks (resolve rest ?s') = confirmed_peaks ?s' @ C"
    "set C \<subseteq> {q \<in> set rest. due ?s' q}" by blast
  show ?case
  proof (cases "due s pk \<and> accepts s pk")
    case True
    with C have "confirmed_peaks (resolve (pk # rest) s) = confirmed_peaks s @ (pk # C)"
      "set (pk # C) \<subseteq> {q \<in> set (pk # rest). due s q}" by auto
    then show ?thesis by blast
  next
    case False
    with C have "confirmed_peaks (resolve (pk # rest) s) = confirmed_peaks s @ C"
      "set C \<subseteq> {q \<in> set (pk # rest). due s q}" by auto
    then show ?thesis by blast
  qed
qed

lemma resolve_sorted:
  "sorted_wrt (<) (map fst (confirmed_peaks s @ pks)) \<Longrightarrow>
   sorted_wrt (<) (map fst (confirmed_peaks (resolve pks s) @ filter (\<lambda>pk. \<not> due s pk) pks))"
proof (induction pks arbitrary: s)
  case Nil
  then show ?case by simp
next
  case (Cons pk rest)
  show ?case
  proof (cases "due s pk")
    case True
    let ?s' = "if due s pk \<and> accepts s pk then s\<lparr>confirmed_peaks := confirmed_peaks s @ [pk]\<rparr> else s"
    have "sorted_wrt (<) (map fst (confirmed_peaks ?s' @ rest))"
      using Cons.prems by (auto simp: sorted_wrt_append)
    from Cons.IH[OF this] True show ?thesis by (cases "accepts s pk") simp_all
  next
    case False
    have "\<forall>q \<in> set rest. fst pk \<le> fst q" using Cons.prems by (auto simp: sorted_wrt_append)
    with False have nd: "\<forall>q \<in> set rest. \<not> due s q" using due_mono by blast
    then have "filter (\<lambda>pk. \<not> due s pk) rest = rest" by simp
    with False nd Cons.prems show ?thesis by (simp add: resolve_none_due)
  qed
qed

lemma step_inv:
  assumes "detector_inv s"
  shows "detector_inv (step x s)"
proof -
  let ?m = "after_check x s"
  have m: "mid_inv ?m" by (rule after_check_mid_inv[OF assms])
  then have bs: "0 < buffer_size ?m" by (simp add: mid_inv_def buffer_ok_def)
  show ?thesis
  proof (cases "sample_count ?m \<ge> buffer_size ?m")
    case False
    then have st: "step x s = ?m" by (simp add: step_def Let_def)
    have "\<forall>pk \<in> set (potential_peaks ?m). sample_count ?m - buffer_size ?m < fst pk"
      using m False by (auto simp: mid_inv_def)
    with m st show ?thesis by (simp add: detector_inv_def)
  next
    case True
    let ?pend = "filter (\<lambda>pk. \<not> due ?m pk) (potential_peaks ?m)"
    let ?r = "(resolve (potential_peaks ?m) ?m)\<lparr>potential_peaks := ?pend\<rparr>"
    from True have st: "step x s = ?r" by (simp add: step_def Let_def)
    obtain C where C: "confirmed_peaks (resolve (potential_peaks ?m) ?m) = confirmed_peaks ?m @ C"
      "set C \<subseteq> {pk \<in> set (potential_peaks ?m). due ?m pk}"
      using resolve_confirmed_ext by blast
    have srt: "sorted_wrt (<) (map fst (confirmed_peaks ?r @ potential_peaks ?r))"
      using resolve_sorted[of ?m "potential_peaks ?m"] m by (simp add: mid_inv_def)
    have conf: "\<forall>pk \<in> set (confirmed_peaks ?r). fst pk \<le> sample_count ?r - 2"
      using C m by (auto simp: mid_inv_def)
    have pend: "\<forall>pk \<in> set (potential_peaks ?r). 1 \<le> fst pk \<and> fst pk \<le> sample_count ?r - 2 \<and>
        buffer ?r ! nat (fst pk mod buffer_size ?r) = snd pk"
      using m by (auto simp: mid_inv_def)
    have "buffer_size ?m div 2 \<le> buffer_size ?m" using bs by simp
    then have post: "\<forall>pk \<in> set (potential_peaks ?r). sample_count ?r - buffer_size ?r < fst pk"
      by (auto simp: due_def)
    have base: "buffer_ok ?r" "0 \<le> sample_count ?r"
      "buffer_index ?r = sample_count ?r mod buffer_size ?r"
      using m by (auto simp: mid_inv_def buffer_ok_def)
    show ?thesis
      unfolding st detector_inv_def mid_inv_def using base pend srt conf post by blast
  qed
qed

lemma init_inv: "0 < bs \<Longrightarrow> detector_inv (PeakDetectorSingleSample_init bs th d pr wd)"
  by (simp add: detector_inv_def mid_inv_def buffer_ok_def PeakDetectorSingleSample_init_def)

lemma inv_add_sample:
  assumes "detector_inv s"
  shows "add_sample x s = Some (Inr (step x s))"
proof (rule add_sample_eq)
  from assms show "0 < buffer_size s" by (simp add: detector_inv_def mid_inv_def buffer_ok_def)
  from assms show "0 \<le> buffer_index s" "buffer_index s < int (length (buffer s))"
    by (simp_all add: detector_inv_def mid_inv_def buffer_ok_def)
qed

lemma inv_add_samples:
  "detector_inv s \<Longrightarrow> add_samples xs s = Some (Inr (fold step xs s)) \<and> detector_inv (fold step xs s)"
proof (induction xs arbitrary: s)
  case Nil
  then show ?case by simp
next
  case (Cons x xs)
  from Cons.IH[OF step_inv[OF Cons.prems, of x]] inv_add_sample[OF Cons.prems, of x]
  show ?case by simp
qed

subsection \<open>Runs from the constructor\<close>

lemma init_nonpositive_raises:
  "bs \<le> 0 \<Longrightarrow> add_sample x (PeakDetectorSingleSample_init bs th d pr wd) = Some (Inl IndexError)"
  by (simp add: add_sample_def PeakDetectorSingleSample_init_def list_setitem_def Let_def)

lemma run_returns:
  "0 < bs \<Longrightarrow>
   add_samples xs (PeakDetectorSingleSample_init bs th d pr wd) =
     Some (Inr (fold step xs (PeakDetectorSingleSample_init bs th d pr wd))) \<and>
   detector_inv (fold step xs (PeakDetectorSingleSample_init bs th d pr wd))"
  by (rule inv_add_samples) (rule init_inv)

lemma if_resolve_fields:
  "buffer_size (if c then (resolve pks m)\<lparr>potential_peaks := pp\<rparr> else m) = buffer_size m"
  "sample_count (if c then (resolve pks m)\<lparr>potential_peaks := pp\<rparr> else m) = sample_count m"
  "threshold (if c then (resolve pks m)\<lparr>potential_peaks := pp\<rparr> else m) = threshold m"
  "min_distance (if c then (resolve pks m)\<lparr>potential_peaks := pp\<rparr> else m) = min_distance m"
  "prominence (if c then (resolve pks m)\<lparr>potential_peaks := pp\<rparr> else m) = prominence m"
  "width (if c then (resolve pks m)\<lparr>potential_peaks := pp\<rparr> else m) = width m"
  "buffer (if c then (resolve pks m)\<lparr>potential_peaks := pp\<rparr> else m) = buffer m"
  "buffer_index (if c then (resolve pks m)\<lparr>potential_peaks := pp\<rparr> else m) = buffer_index m"
  by simp_all

lemma step_fields [simp]:
  "buffer_size (step x s) = buffer_size s"
  "sample_count (step x s) = sample_count s + 1"
  "threshold (step x s) = threshold s"
  "min_distance (step x s) = min_distance s"
  "prominence (step x s) = prominence s"
  "width (step x s) = width s"
  "buffer (step x s) = (buffer s)[nat (buffer_index s) := x]"
  "buffer_index (step x s) = (buffer_index s + 1) mod buffer_size s"
  unfolding step_def Let_def if_resolve_fields by (rule after_check_fields)+

lemma fold_step_fields [simp]:
  "buffer_size (fold step xs s) = buffer_size s"
  "sample_count (fold step xs s) = sample_count s + int (length xs)"
  "threshold (fold step xs s) = threshold s"
  "min_distance (fold step xs s) = min_distance s"
  "prominence (fold step xs s) = prominence s"
  "width (fold step xs s) = width s"
  by (induction xs arbitrary: s) simp_all

lemma step_pending:
  "\<exists>cand. length cand \<le> 1 \<and> (\<forall>pk \<in> set cand. fst pk = sample_count (step x s) - 2) \<and>
     potential_peaks (after_check x s) = potential_peaks s @ cand \<and>
     potential_peaks (step x s) =
       filter (\<lambda>pk. \<not> (sample_count (step x s) \<ge> buffer_size s \<and>
                       sample_count (step x s) - fst pk \<ge> buffer_size s div 2))
         (potential_peaks s @ cand)"
proof -
  obtain cand where c: "potential_peaks (after_check x s) = potential_peaks s @ cand"
    "length cand \<le> 1" "\<forall>pk \<in> set cand. fst pk = sample_count s - 1"
    using after_check_potential[of x s] by blast
  have "potential_peaks (step x s) =
       filter (\<lambda>pk. \<not> (sample_count (step x s) \<ge> buffer_size s \<and>
                       sample_count (step x s) - fst pk \<ge> buffer_size s div 2))
         (potential_peaks s @ cand)"
  proof (cases "sample_count (after_check x s) \<ge> buffer_size (after_check x s)")
    case True
    then show ?thesis using c(1) by (simp add: step_def Let_def due_def)
  next
    case False
    then show ?thesis using c(1) by (simp add: step_def Let_def)
  qed
  with c show ?thesis by auto
qed

lemma step_confirmed:
  "\<exists>C. confirmed_peaks (step x s) = confirmed_peaks s @ C \<and>
     (\<forall>pk \<in> set C. pk \<in> set (potential_peaks (after_check x s)) \<and>
        sample_count (step x s) \<ge> buffer_size s \<and>
        sample_count (step x s) - fst pk \<ge> buffer_size s div 2)"
proof (cases "sample_count (after_check x s) \<ge> buffer_size (after_check x s)")
  case True
  obtain C where C: "confirmed_peaks (resolve (potential_peaks (after_check x s)) (after_check x s))
      = confirmed_peaks (after_check x s) @ C"
    "set C \<subseteq> {pk \<in> set (potential_peaks (after_check x s)). due (after_check x s) pk}"
    using resolve_confirmed_ext by blast
  from True C(1) have "confirmed_peaks (step x s) = confirmed_peaks s @ C"
    by (simp add: step_def Let_def)
  moreover from True C(2) have "\<forall>pk \<in> set C. pk \<in> set (potential_peaks (after_check x s)) \<and>
        sample_count (step x s) \<ge> buffer_size s \<and>
        sample_count (step x s) - fst pk \<ge> buffer_size s div 2"
    by (auto simp: due_def)
  ultimately show ?thesis by blast
next
  case False
  then have "confirmed_peaks (step x s) = confirmed_peaks s @ []" by (simp add: step_def Let_def)
  then show ?thesis by (metis empty_iff list.set(1))
qed

lemma confirmed_sorted: "detector_inv s \<Longrightarrow> sorted_wrt (<) (map fst (confirmed_peaks s))"
  by (simp add: detector_inv_def mid_inv_def sorted_wrt_append)

lemma detect_peaks_sorted: "sorted_wrt (<) (fst (detect_peaks D))"
  by (simp add: detect_peaks_def Let_def enforce_eq_spec spec_filter_sorted initial_peaks_sorted)

lemma run_nonpositive:
  assumes "bs \<le> 0"
    and "add_samples xs (PeakDetectorSingleSample_init bs th d pr wd) = Some (Inr s)"
  shows "xs = [] \<and> s = PeakDetectorSingleSample_init bs th d pr wd"
proof (cases xs)
  case Nil
  with assms show ?thesis by simp
next
  case (Cons x rest)
  with assms init_nonpositive_raises[OF assms(1), of x th d pr wd] show ?thesis by simp
qed

subsection \<open>Validation of the configuration\<close>

text \<open>
  C4 (as amended). Neither the constructor nor \<open>add_sample\<close> validates anything. With
  \<open>buffer_size \<ge> 1\<close> (1 and 2 included) every ingestion returns normally, whatever
  \<open>min_distance\<close>, \<open>threshold\<close>, \<open>prominence\<close> and \<open>width\<close> are. With
  \<open>buffer_size \<le> 0\<close> the constructor succeeds and the first ingestion raises
  \<open>IndexError\<close> from the write into the empty buffer.
\<close>

theorem no_validation:
  "(0 < bs \<longrightarrow> (\<exists>s. add_samples xs (PeakDetectorSingleSample_init bs th d pr wd) = Some (Inr s))) \<and>
   (bs \<le> 0 \<longrightarrow>
      add_sample x (PeakDetectorSingleSample_init bs th d pr wd) = Some (Inl IndexError))"
  using run_returns[of bs xs th d pr wd] init_nonpositive_raises[of bs x th d pr wd] by blast

theorem no_validation_witness:
  "(0 :: int) < 2 \<and> (- 4 :: int) \<le> 0 \<and>
   (\<exists>s. add_samples [0, 1, 0] (PeakDetectorSingleSample_init 2 0 (- 1) None None) = Some (Inr s)) \<and>
   add_sample 1 (PeakDetectorSingleSample_init (- 4) 0 1 None None) = Some (Inl IndexError)"
  using no_validation[of 2 "[0, 1, 0]" 0 "- 1" None None] no_validation[of "- 4" _ 0 1 None None 1]
  by simp

text \<open>
  C4 as stated fails: a detector with \<open>min_distance = -1\<close> is constructed and ingests
  three samples without any error, and so does one with \<open>buffer_size = 2\<close> (which even
  confirms a peak); the batch detector with \<open>min_distance = -1\<close> returns normally too.
\<close>

theorem negative_min_distance_accepted_counterexample:
  "add_samples [0, 1, 0] (PeakDetectorSingleSample_init 3 0 (- 1) None None) =
     Some (Inr \<lparr>threshold = 0, min_distance = - 1, prominence = None, width = None,
                buffer_size = 3, buffer = [0, 1, 0], buffer_index = 0,
                potential_peaks = [], confirmed_peaks = [(1, 1)], sample_count = 3\<rparr>) \<and>
   add_samples [0, 1, 0] (PeakDetectorSingleSample_init 2 0 1 None None) =
     Some (Inr \<lparr>threshold = 0, min_distance = 1, prominence = None, width = None,
                buffer_size = 2, buffer = [0, 1], buffer_index = 1,
                potential_peaks = [], confirmed_peaks = [(1, 1)], sample_count = 3\<rparr>) \<and>
   fst (detect_peaks (PeakDetector_init [0, 1, 0] 0 (- 1) None None)) = [1]"
  by code_simp

subsection \<open>When a pending candidate is resolved\<close>

text \<open>
  C3 (as amended). After every ingestion, with \<open>cand\<close> the candidate discovered by it
  (if any, at position \<open>samples_seen - 2\<close>): the pending queue holds exactly the
  candidates for which it is not yet the case that the window has filled
  (\<open>samples_seen \<ge> buffer_size\<close>) and the age \<open>samples_seen - position\<close> has reached
  \<open>buffer_size // 2\<close>; every other one has been resolved. The confirmed list grows
  only by such resolved candidates, so no peak is confirmed before its age reaches
  \<open>buffer_size // 2\<close>.
\<close>

theorem resolution_timing:
  "0 < bs \<Longrightarrow>
   \<exists>s s' cand C.
     add_samples xs (PeakDetectorSingleSample_init bs th d pr wd) = Some (Inr s) \<and>
     add_sample x s = Some (Inr s') \<and>
     sample_count s = int (length xs) \<and> sample_count s' = sample_count s + 1 \<and>
     length cand \<le> 1 \<and> (\<forall>pk \<in> set cand. fst pk = sample_count s' - 2) \<and>
     potential_peaks s' =
       filter (\<lambda>pk. \<not> (sample_count s' \<ge> bs \<and> sample_count s' - fst pk \<ge> bs div 2))
         (potential_peaks s @ cand) \<and>
     confirmed_peaks s' = confirmed_peaks s @ C \<and>
     (\<forall>pk \<in> set C. pk \<in> set (potential_peaks s @ cand) \<and>
        sample_count s' \<ge> bs \<and> sample_count s' - fst pk \<ge> bs div 2)"
proof -
  assume bs: "0 < bs"
  let ?i = "PeakDetectorSingleSample_init bs th d pr wd"
  let ?s = "fold step xs ?i"
  have run: "add_samples xs ?i = Some (Inr ?s)" and inv: "detector_inv ?s"
    using run_returns[OF bs] by blast+
  have one: "add_sample x ?s = Some (Inr (step x ?s))" by (rule inv_add_sample[OF inv])
  have bsz: "buffer_size ?s = bs" by (simp add: PeakDetectorSingleSample_init_def)
  have cnt: "sample_count ?s = int (length xs)" by (simp add: PeakDetectorSingleSample_init_def)
  obtain cand where c: "length cand \<le> 1" "\<forall>pk \<in> set cand. fst pk = sample_count (step x ?s) - 2"
    "potential_peaks (after_check x ?s) = potential_peaks ?s @ cand"
    "potential_peaks (step x ?s) =
       filter (\<lambda>pk. \<not> (sample_count (step x ?s) \<ge> buffer_size ?s \<and>
                       sample_count (step x ?s) - fst pk \<ge> buffer_size ?s div 2))
         (potential_peaks ?s @ cand)"
    using step_pending[of x ?s] by blast
  obtain C where C: "confirmed_peaks (step x ?s) = confirmed_peaks ?s @ C"
    "\<forall>pk \<in> set C. pk \<in> set (potential_peaks (after_check x ?s)) \<and>
        sample_count (step x ?s) \<ge> buffer_size ?s \<and>
        sample_count (step x ?s) - fst pk \<ge> buffer_size ?s div 2"
    using step_confirmed[of x ?s] by blast
  have sc': "sample_count (step x ?s) = sample_count ?s + 1" by simp
  show ?thesis
    apply (rule exI[of _ ?s], rule exI[of _ "step x ?s"], rule exI[of _ cand], rule exI[of _ C])
    using run one cnt sc' c C unfolding bsz by (intro conjI) simp_all
qed

theorem resolution_timing_witness:
  "(0 :: int) < 3 \<and>
   (\<exists>s s' cand C.
     add_samples [0, 1, 0] (PeakDetectorSingleSample_init 3 0 1 None None) = Some (Inr s) \<and>
     add_sample 0 s = Some (Inr s') \<and>
     sample_count s = int (length [0, 1, 0 :: real]) \<and> sample_count s' = sample_count s + 1 \<and>
     length cand \<le> 1 \<and> (\<forall>pk \<in> set cand. fst pk = sample_count s' - 2) \<and>
     potential_peaks s' =
       filter (\<lambda>pk. \<not> (sample_count s' \<ge> 3 \<and> sample_count s' - fst pk \<ge> 3 div 2))
         (potential_peaks s @ cand) \<and>
     confirmed_peaks s' = confirmed_peaks s @ C \<and>
     (\<forall>pk \<in> set C. pk \<in> set (potential_peaks s @ cand) \<and>
        sample_count s' \<ge> 3 \<and> sample_count s' - fst pk \<ge> 3 div 2))"
  using resolution_timing[of 3 "[0, 1, 0]" 0 1 None None 0] by simp

text \<open>
  C3 as stated fails during warm-up: with \<open>buffer_size = 10\<close>, the candidate at position
  1 has age \<open>6 - 1 = 5 = 10 // 2\<close> after the sixth sample, and it is still pending,
  neither confirmed nor discarded (it is resolved at the tenth sample).
\<close>

theorem warm_up_candidate_unresolved_counterexample:
  "add_samples [0, 1, 0, 0, 0, 0] (PeakDetectorSingleSample_init 10 0 1 None None) =
     Some (Inr \<lparr>threshold = 0, min_distance = 1, prominence = None, width = None,
                buffer_size = 10, buffer = [0, 1, 0, 0, 0, 0, 0, 0, 0, 0], buffer_index = 6,
                potential_peaks = [(1, 1)], confirmed_peaks = [], sample_count = 6\<rparr>) \<and>
   (6 :: int) - 1 \<ge> 10 div 2"
  by code_simp

subsection \<open>Order of the returned peaks\<close>

text \<open>
  C7. The peak positions returned by \<open>detect_peaks\<close> are strictly increasing. For the
  single-sample detector, after any run from the constructor the confirmed positions are
  strictly increasing, and the next \<open>add_sample\<close> returns a list that extends the
  previous one by appended entries only (with \<open>buffer_size \<le> 0\<close> it raises and returns
  nothing).
\<close>

theorem peaks_increasing_append_only:
  "sorted_wrt (<) (fst (detect_peaks D)) \<and>
   (0 < bs \<longrightarrow> (\<exists>s. add_samples xs (PeakDetectorSingleSample_init bs th d pr wd) = Some (Inr s))) \<and>
   (add_samples xs (PeakDetectorSingleSample_init bs th d pr wd) = Some (Inr s) \<longrightarrow>
      sorted_wrt (<) (map fst (get_peaks s)) \<and>
      ((\<exists>s' new. add_sample x s = Some (Inr s') \<and> get_peaks s' = get_peaks s @ new) \<or>
       (bs \<le> 0 \<and> add_sample x s = Some (Inl IndexError))))"
proof (intro conjI impI)
  show "sorted_wrt (<) (fst (detect_peaks D))" by (rule detect_peaks_sorted)
next
  assume "0 < bs"
  from run_returns[OF this]
  show "\<exists>s. add_samples xs (PeakDetectorSingleSample_init bs th d pr wd) = Some (Inr s)"
    by blast
next
  let ?i = "PeakDetectorSingleSample_init bs th d pr wd"
  assume run: "add_samples xs ?i = Some (Inr s)"
  have "sorted_wrt (<) (map fst (get_peaks s)) \<and>
      ((\<exists>s' new. add_sample x s = Some (Inr s') \<and> get_peaks s' = get_peaks s @ new) \<or>
       (bs \<le> 0 \<and> add_sample x s = Some (Inl IndexError)))"
  proof (cases "0 < bs")
    case True
    from run_returns[OF True, of xs th d pr wd] run have inv: "detector_inv s" by simp
    obtain C where "confirmed_peaks (step x s) = confirmed_peaks s @ C"
      using step_confirmed[of x s] by blast
    with inv_add_sample[OF inv, of x] confirmed_sorted[OF inv] show ?thesis
      by (auto simp: get_peaks_def)
  next
    case False
    then have le: "bs \<le> 0" by simp
    from run_nonpositive[OF le run] have s: "s = ?i" by simp
    with init_nonpositive_raises[OF le, of x th d pr wd] le show ?thesis
      by (simp add: get_peaks_def PeakDetectorSingleSample_init_def)
  qed
  then show "sorted_wrt (<) (map fst (get_peaks s))"
    and "(\<exists>s' new. add_sample x s = Some (Inr s') \<and> get_peaks s' = get_peaks s @ new) \<or>
       (bs \<le> 0 \<and> add_sample x s = Some (Inl IndexError))" by blast+
qed

theorem peaks_increasing_append_only_witness:
  "(0 :: int) < 3 \<and>
   add_samples [0, 1, 0] (PeakDetectorSingleSample_init 3 0 1 None None) =
     Some (Inr \<lparr>threshold = 0, min_distance = 1, prominence = None, width = None,
                buffer_size = 3, buffer = [0, 1, 0], buffer_index = 0,
                potential_peaks = [], confirmed_peaks = [(1, 1)], sample_count = 3\<rparr>) \<and>
   sorted_wrt (<) (fst (detect_peaks (PeakDetector_init [0, 1, 0, 2, 0] 0 1 None None))) \<and>
   sorted_wrt (<) (map fst (get_peaks
      \<lparr>threshold = 0, min_distance = 1, prominence = None, width = None,
       buffer_size = 3, buffer = [0, 1, 0], buffer_index = 0,
       potential_peaks = [], confirmed_peaks = [(1, 1)], sample_count = 3\<rparr>))"
proof -
  have run: "add_samples [0, 1, 0] (PeakDetectorSingleSample_init 3 0 1 None None) =
     Some (Inr \<lparr>threshold = 0, min_distance = 1, prominence = None, width = None,
                buffer_size = 3, buffer = [0, 1, 0], buffer_index = 0,
                potential_peaks = [], confirmed_peaks = [(1, 1)], sample_count = 3\<rparr>)"
    by code_simp
  from peaks_increasing_append_only[of "PeakDetector_init [0, 1, 0, 2, 0] 0 1 None None"
      3 "[0, 1, 0]" 0 1 None None _ 0] run
  show ?thesis by simp
qed

subsection \<open>The initial contents of the buffer\<close>

lemma after_check_potential_explicit:
  "potential_peaks (after_check x s) =
     potential_peaks s @
     (let B = (buffer s)[nat (buffer_index s) := x];
          c = ((buffer_index s + 1) mod buffer_size s - 2) mod buffer_size s
      in if 3 \<le> sample_count s + 1 \<and>
            B ! nat c > B ! nat ((c - 1) mod buffer_size s) + threshold s \<and>
            B ! nat c > B ! nat ((c + 1) mod buffer_size s) + threshold s
         then [(sample_count s + 1 - 2, B ! nat c)] else [])"
  by (simp add: after_check_def check_potential_peak_def Let_def)

lemma after_check_cong:
  assumes "agree_on_written s t" "(buffer s)[nat (buffer_index s) := x] = (buffer t)[nat (buffer_index t) := x]"
  shows "after_check x s = after_check x t"
proof -
  have "s\<lparr>sample_count := sample_count s + 1,
          buffer := (buffer s)[nat (buffer_index s) := x],
          buffer_index := (buffer_index s + 1) mod buffer_size s\<rparr> =
        t\<lparr>sample_count := sample_count t + 1,
          buffer := (buffer t)[nat (buffer_index t) := x],
          buffer_index := (buffer_index t + 1) mod buffer_size t\<rparr>"
    using assms by (intro PeakDetectorSingleSample.equality) (simp_all add: agree_on_written_def)
  then show ?thesis by (simp add: after_check_def)
qed

lemma step_agree:
  assumes R: "agree_on_written s t" and invs: "detector_inv s" and invt: "detector_inv t"
  shows "agree_on_written (step x s) (step x t)"
proof -
  let ?bs = "buffer_size s"
  let ?sc = "sample_count s"
  let ?bi = "buffer_index s"
  let ?Bs = "(buffer s)[nat ?bi := x]"
  let ?Bt = "(buffer t)[nat ?bi := x]"
  from R have f: "threshold s = threshold t" "buffer_size t = ?bs" "buffer_index t = ?bi"
    "sample_count t = ?sc" "potential_peaks s = potential_peaks t"
    "confirmed_peaks s = confirmed_peaks t" "length (buffer s) = length (buffer t)"
    "min_distance s = min_distance t" "prominence s = prominence t" "width s = width t"
    and ag: "\<forall>i < nat (min ?sc ?bs). buffer s ! i = buffer t ! i"
    by (simp_all add: agree_on_written_def)
  from invs have bs: "0 < ?bs" and len: "length (buffer s) = nat ?bs" and sc: "0 \<le> ?sc"
    and bi: "?bi = ?sc mod ?bs"
    by (simp_all add: detector_inv_def mid_inv_def buffer_ok_def)
  have bir: "0 \<le> ?bi" "?bi < ?bs" using bi bs by simp_all
  have A: "\<forall>i < nat (min (?sc + 1) ?bs). ?Bs ! i = ?Bt ! i"
  proof (intro allI impI)
    fix i assume i: "i < nat (min (?sc + 1) ?bs)"
    then have il: "i < length (buffer s)" using len by simp
    show "?Bs ! i = ?Bt ! i"
    proof (cases "i = nat ?bi")
      case True
      with il f(7) show ?thesis by simp
    next
      case False
      have "i < nat (min ?sc ?bs)"
      proof (cases "?sc < ?bs")
        case True
        then have "?bi = ?sc" using bi sc by simp
        with False i True sc show ?thesis by (simp add: min_def split: if_splits)
      next
        case False
        with i show ?thesis by (simp add: min_def split: if_splits)
      qed
      with ag False show ?thesis by simp
    qed
  qed
  show ?thesis
  proof (cases "?sc + 1 \<ge> ?bs")
    case True
    have "?Bs = ?Bt"
    proof (rule nth_equalityI)
      show "length ?Bs = length ?Bt" using f(7) by simp
    next
      fix i assume "i < length ?Bs"
      then have "i < nat (min (?sc + 1) ?bs)" using len True by (simp add: min_def)
      with A show "?Bs ! i = ?Bt ! i" by blast
    qed
    then have "after_check x s = after_check x t"
      using after_check_cong[OF R, of x] f(3) by simp
    then have "step x s = step x t" by (simp add: step_def)
    then show ?thesis by (simp add: agree_on_written_def)
  next
    case False
    then have lt: "?sc + 1 < ?bs" by simp
    have ss: "step x s = after_check x s" and st: "step x t = after_check x t"
      using lt f by (simp_all add: step_def Let_def)
    have bi_eq: "?bi = ?sc" using bi sc lt by simp
    have bi1: "(?bi + 1) mod ?bs = ?sc + 1" using bi_eq lt sc by simp
    have pp: "potential_peaks (after_check x s) = potential_peaks (after_check x t)"
    proof (cases "3 \<le> ?sc + 1")
      case False
      then show ?thesis using f by (simp add: after_check_potential_explicit Let_def)
    next
      case True
      have c: "((?bi + 1) mod ?bs - 2) mod ?bs = ?sc - 1" using bi1 True lt by simp
      have p: "(?sc - 1 - 1) mod ?bs = ?sc - 2" using True lt by simp
      have n: "(?sc - 1 + 1) mod ?bs = ?sc" using True lt by simp
      have r: "nat (?sc - 1) < nat (min (?sc + 1) ?bs)" "nat (?sc - 2) < nat (min (?sc + 1) ?bs)"
        "nat ?sc < nat (min (?sc + 1) ?bs)" using True lt by (simp_all add: min_def)
      from A r have e: "?Bs ! nat (?sc - 1) = ?Bt ! nat (?sc - 1)"
        "?Bs ! nat (?sc - 2) = ?Bt ! nat (?sc - 2)" "?Bs ! nat ?sc = ?Bt ! nat ?sc" by blast+
      show ?thesis
        unfolding after_check_potential_explicit Let_def f(2) f(3) f(4) c p n
        using e f(1) f(5) by simp
    qed
    have "agree_on_written (after_check x s) (after_check x t)"
      unfolding agree_on_written_def using f pp A by simp
    with ss st show ?thesis by simp
  qed
qed

lemma fold_step_agree:
  "agree_on_written s t \<Longrightarrow> detector_inv s \<Longrightarrow> detector_inv t \<Longrightarrow>
   agree_on_written (fold step xs s) (fold step xs t)"
proof (induction xs arbitrary: s t)
  case Nil
  then show ?case by simp
next
  case (Cons x xs)
  from Cons.IH[OF step_agree[OF Cons.prems, of x] step_inv[OF Cons.prems(2)] step_inv[OF Cons.prems(3)]]
  show ?case by simp
qed

lemma init_fill_inv:
  "0 < bs \<Longrightarrow> length b = nat bs \<Longrightarrow>
   detector_inv ((PeakDetectorSingleSample_init bs th d pr wd)\<lparr>buffer := b\<rparr>)"
  by (simp add: detector_inv_def mid_inv_def buffer_ok_def PeakDetectorSingleSample_init_def)

text \<open>
  C10. The zeros that the constructor puts into the buffer never reach the output: a run
  started with any other initial contents of the same length returns (or raises) the same
  at every sample, with the same list of confirmed peaks. The candidate test only reads
  slots already written, and the confirmation checks only run once the window has filled.
\<close>

theorem initial_fill_irrelevant:
  assumes "length b = nat bs"
  shows "map_option (map_sum id get_peaks)
           (add_samples xs ((PeakDetectorSingleSample_init bs th d pr wd)\<lparr>buffer := b\<rparr>)) =
         map_option (map_sum id get_peaks)
           (add_samples xs (PeakDetectorSingleSample_init bs th d pr wd))"
proof (cases "0 < bs")
  case False
  with assms have "b = []" by simp
  with False have "(PeakDetectorSingleSample_init bs th d pr wd)\<lparr>buffer := b\<rparr> =
      PeakDetectorSingleSample_init bs th d pr wd"
    by (simp add: PeakDetectorSingleSample_init_def)
  then show ?thesis by simp
next
  case True
  let ?i = "PeakDetectorSingleSample_init bs th d pr wd"
  let ?j = "?i\<lparr>buffer := b\<rparr>"
  have ii: "detector_inv ?i" by (rule init_inv[OF True])
  have ij: "detector_inv ?j" by (rule init_fill_inv[OF True assms])
  have R: "agree_on_written ?j ?i"
    using assms by (simp add: agree_on_written_def PeakDetectorSingleSample_init_def)
  from fold_step_agree[OF R ij ii, of xs]
  have "confirmed_peaks (fold step xs ?j) = confirmed_peaks (fold step xs ?i)"
    by (simp add: agree_on_written_def)
  with inv_add_samples[OF ii, of xs] inv_add_samples[OF ij, of xs]
  show ?thesis by (simp add: get_peaks_def)
qed

theorem initial_fill_irrelevant_witness:
  "length [7, 7, 7 :: real] = nat 3 \<and>
   map_option (map_sum id get_peaks)
     (add_samples [0, 1, 0, 0]
        ((PeakDetectorSingleSample_init 3 0 1 None None)\<lparr>buffer := [7, 7, 7]\<rparr>)) =
   map_option (map_sum id get_peaks)
     (add_samples [0, 1, 0, 0] (PeakDetectorSingleSample_init 3 0 1 None None))"
proof -
  have l: "length [7, 7, 7 :: real] = nat 3" by simp
  from initial_fill_irrelevant[OF l, of "[0, 1, 0, 0]" 0 1 None None] l show ?thesis by blast
qed

subsection \<open>The prominence of the single-sample detector\<close>

lemma ss_prominence_eq:
  assumes "buffer_ok s"
  shows "ss_calculate_prominence s pk = snd pk - Min (set (buffer s))"
proof -
  let ?k = "nat (fst pk mod buffer_size s)"
  let ?r = "drop ?k (buffer s) @ take ?k (buffer s)"
  from assms have ne: "buffer s \<noteq> []" by (auto simp: buffer_ok_def)
  have st: "set ?r = set (buffer s)"
    by (metis append_take_drop_id set_append sup_commute)
  with ne have "?r \<noteq> []" by (metis set_empty)
  then have "min_list ?r = Min (set ?r)" by (rule min_list_Min)
  with st show ?thesis by (simp add: ss_calculate_prominence_def Let_def)
qed

lemma ss_prominence_nonneg:
  assumes "buffer_ok s" "buffer s ! nat (fst pk mod buffer_size s) = snd pk"
  shows "0 \<le> ss_calculate_prominence s pk"
proof -
  from assms(1) have bs: "0 < buffer_size s" and len: "length (buffer s) = nat (buffer_size s)"
    by (auto simp: buffer_ok_def)
  have "fst pk mod buffer_size s < buffer_size s" "0 \<le> fst pk mod buffer_size s" using bs by simp_all
  then have "nat (fst pk mod buffer_size s) < length (buffer s)" using len by linarith
  then have "buffer s ! nat (fst pk mod buffer_size s) \<in> set (buffer s)" by (rule nth_mem)
  with assms(2) have "Min (set (buffer s)) \<le> snd pk" by simp
  then show ?thesis by (simp add: ss_prominence_eq[OF assms(1)])
qed

lemma buffer_ok_confirmed [simp]: "buffer_ok (s\<lparr>confirmed_peaks := c\<rparr>) = buffer_ok s"
  by (simp add: buffer_ok_def)

lemma ss_prominence_same_window:
  "buffer s1 = buffer s2 \<Longrightarrow> buffer_size s1 = buffer_size s2 \<Longrightarrow>
   ss_calculate_prominence s1 pk = ss_calculate_prominence s2 pk"
  by (simp add: ss_calculate_prominence_def)

lemma ss_width_same_window:
  "buffer s1 = buffer s2 \<Longrightarrow> buffer_size s1 = buffer_size s2 \<Longrightarrow> threshold s1 = threshold s2 \<Longrightarrow>
   ss_calculate_width s1 pk = ss_calculate_width s2 pk"
  unfolding ss_calculate_width_def by (elim ssubst) (rule refl)

lemma rejects_confirmed_update [simp]:
  "prominence_rejects (s\<lparr>confirmed_peaks := c\<rparr>) pk = prominence_rejects s pk"
  "width_rejects (s\<lparr>confirmed_peaks := c\<rparr>) pk = width_rejects s pk"
  using ss_prominence_same_window[of "s\<lparr>confirmed_peaks := c\<rparr>" s pk]
    ss_width_same_window[of "s\<lparr>confirmed_peaks := c\<rparr>" s pk]
  by (simp_all add: prominence_rejects_def width_rejects_def)









section \<open>Raising a filter value\<close>

subsection \<open>The batch detector\<close>

lemma properties_loop_step:
  "properties_loop D (peak # rest) pp =
     (if batch_rejects D peak then properties_loop D rest pp
      else properties_loop D rest
             (pp\<lparr>heights := heights pp @ [signal D ! peak],
                 prominences := prominences pp @
                   [case prominence D of None \<Rightarrow> None
                    | Some _ \<Rightarrow> Some (calculate_prominence (signal D) peak)],
                 widths := widths pp @
                   [case width D of None \<Rightarrow> None
                    | Some _ \<Rightarrow> Some (calculate_width (signal D) (threshold D) peak)]\<rparr>))"
  by (cases "prominence D"; cases "width D") (simp_all add: batch_rejects_def Let_def)

lemma properties_loop_mono:
  assumes "\<forall>peak. batch_rejects D1 peak \<longrightarrow> batch_rejects D2 peak"
    and "length (heights pp2) \<le> length (heights pp1)"
  shows "length (heights (properties_loop D2 ps pp2)) \<le> length (heights (properties_loop D1 ps pp1))"
  using assms(2)
proof (induction ps arbitrary: pp1 pp2)
  case Nil
  then show ?case by simp
next
  case (Cons peak rest)
  show ?case
    unfolding properties_loop_step using assms(1) Cons.prems
    by (auto intro!: Cons.IH)
qed

lemma batch_rejects_raise_prominence:
  "p1 \<le> p2 \<Longrightarrow> batch_rejects (D\<lparr>prominence := Some p1\<rparr>) peak \<Longrightarrow>
   batch_rejects (D\<lparr>prominence := Some p2\<rparr>) peak"
  by (auto simp: batch_rejects_def split: option.splits)

lemma batch_rejects_raise_width:
  "w1 \<le> w2 \<Longrightarrow> batch_rejects (D\<lparr>width := Some w1\<rparr>) peak \<Longrightarrow>
   batch_rejects (D\<lparr>width := Some w2\<rparr>) peak"
  by (auto simp: batch_rejects_def split: option.splits)

lemma detect_peaks_raise_prominence:
  assumes "p1 \<le> p2"
  shows "fst (detect_peaks (D\<lparr>prominence := Some p2\<rparr>)) = fst (detect_peaks (D\<lparr>prominence := Some p1\<rparr>)) \<and>
     length (heights (snd (detect_peaks (D\<lparr>prominence := Some p2\<rparr>)))) \<le>
     length (heights (snd (detect_peaks (D\<lparr>prominence := Some p1\<rparr>))))"
  using properties_loop_mono[of "D\<lparr>prominence := Some p1\<rparr>" "D\<lparr>prominence := Some p2\<rparr>"]
    batch_rejects_raise_prominence[OF assms, of D]
  by (simp add: detect_peaks_def Let_def)

lemma detect_peaks_raise_width:
  assumes "w1 \<le> w2"
  shows "fst (detect_peaks (D\<lparr>width := Some w2\<rparr>)) = fst (detect_peaks (D\<lparr>width := Some w1\<rparr>)) \<and>
     length (heights (snd (detect_peaks (D\<lparr>width := Some w2\<rparr>)))) \<le>
     length (heights (snd (detect_peaks (D\<lparr>width := Some w1\<rparr>))))"
  using properties_loop_mono[of "D\<lparr>width := Some w1\<rparr>" "D\<lparr>width := Some w2\<rparr>"]
    batch_rejects_raise_width[OF assms, of D]
  by (simp add: detect_peaks_def Let_def)

subsection \<open>Two runs of the single-sample detector in lockstep\<close>

lemma ahead_snoc_both: "length c2 \<le> length c1 \<Longrightarrow> ahead (c1 @ [pk]) (c2 @ [pk])"
  by (simp add: ahead_def)

lemma ahead_snoc_left: "length c2 \<le> length c1 \<Longrightarrow> ahead (c1 @ [pk]) c2"
  by (simp add: ahead_def)

lemma ahead_snoc_right:
  "length c2 < length c1 \<Longrightarrow> fst (last c1) \<le> fst pk \<Longrightarrow> ahead c1 (c2 @ [pk])"
  by (simp add: ahead_def)

lemma raised_prominence_rejects:
  assumes "raised (prominence s1) (prominence s2)"
    and "buffer s1 = buffer s2" "buffer_size s1 = buffer_size s2"
    and "buffer_ok s1" "buffer s1 ! nat (fst pk mod buffer_size s1) = snd pk"
    and "prominence_rejects s1 pk"
  shows "prominence_rejects s2 pk"
proof -
  have e: "ss_calculate_prominence s2 pk = ss_calculate_prominence s1 pk"
    using ss_prominence_same_window[of s2 s1 pk] assms(2,3) by simp
  have nn: "0 \<le> ss_calculate_prominence s1 pk" by (rule ss_prominence_nonneg[OF assms(4,5)])
  from assms(1) show ?thesis
    unfolding raised_def
  proof
    assume "prominence s1 = prominence s2"
    with assms(6) e show ?thesis by (simp add: prominence_rejects_def)
  next
    assume "\<exists>u v. prominence s1 = Some u \<and> prominence s2 = Some v \<and> u \<le> v"
    then obtain u v where uv: "prominence s1 = Some u" "prominence s2 = Some v" "u \<le> v" by blast
    with assms(6) have "ss_calculate_prominence s1 pk < u" by (simp add: prominence_rejects_def)
    with nn uv have "0 < v" "ss_calculate_prominence s1 pk < v" by linarith+
    with uv e show ?thesis by (simp add: prominence_rejects_def truthy_def)
  qed
qed

lemma raised_width_rejects:
  assumes "raised (width s1) (width s2)"
    and "buffer s1 = buffer s2" "buffer_size s1 = buffer_size s2" "threshold s1 = threshold s2"
    and "0 < buffer_size s1"
    and "width_rejects s1 pk"
  shows "width_rejects s2 pk"
proof -
  have e: "ss_calculate_width s2 pk = ss_calculate_width s1 pk"
    using ss_width_same_window[of s2 s1 pk] assms(2,3,4) by simp
  obtain w where w: "ss_calculate_width s1 pk = Some w" "0 < w"
    using ss_calculate_width_total[OF assms(5)] by blast
  from assms(1) show ?thesis
    unfolding raised_def
  proof
    assume "width s1 = width s2"
    with assms(6) e show ?thesis by (simp add: width_rejects_def)
  next
    assume "\<exists>u v. width s1 = Some u \<and> width s2 = Some v \<and> u \<le> v"
    then obtain u v where uv: "width s1 = Some u" "width s2 = Some v" "u \<le> v" by blast
    with assms(6) w have "real_of_int w < u" by (simp add: width_rejects_def)
    moreover from w have "0 < real_of_int w" by simp
    ultimately have "0 < v" "real_of_int w < v" using uv by linarith+
    with uv e w show ?thesis by (simp add: width_rejects_def truthy_def)
  qed
qed

lemma resolve_ahead:
  assumes "buffer_size s2 = buffer_size s1" "sample_count s2 = sample_count s1"
    "min_distance s2 = min_distance s1"
    and "\<forall>pk \<in> set pks. (prominence_rejects s1 pk \<longrightarrow> prominence_rejects s2 pk) \<and>
                          (width_rejects s1 pk \<longrightarrow> width_rejects s2 pk)"
    and "sorted_wrt (<) (map fst (confirmed_peaks s1 @ pks))"
    and "ahead (confirmed_peaks s1) (confirmed_peaks s2)"
  shows "ahead (confirmed_peaks (resolve pks s1)) (confirmed_peaks (resolve pks s2))"
  using assms
proof (induction pks arbitrary: s1 s2)
  case Nil
  then show ?case by simp
next
  case (Cons pk rest)
  define c1 where "c1 = confirmed_peaks s1"
  define c2 where "c2 = confirmed_peaks s2"
  define a1 where "a1 \<longleftrightarrow> due s1 pk \<and> accepts s1 pk"
  define a2 where "a2 \<longleftrightarrow> due s2 pk \<and> accepts s2 pk"
  define t1 where "t1 = (if a1 then s1\<lparr>confirmed_peaks := c1 @ [pk]\<rparr> else s1)"
  define t2 where "t2 = (if a2 then s2\<lparr>confirmed_peaks := c2 @ [pk]\<rparr> else s2)"
  have r1: "resolve (pk # rest) s1 = resolve rest t1" by (simp add: t1_def a1_def c1_def)
  have r2: "resolve (pk # rest) s2 = resolve rest t2" by (simp add: t2_def a2_def c2_def)
  have k1: "confirmed_peaks t1 = (if a1 then c1 @ [pk] else c1)" by (simp add: t1_def c1_def)
  have k2: "confirmed_peaks t2 = (if a2 then c2 @ [pk] else c2)" by (simp add: t2_def c2_def)
  have f: "buffer_size t2 = buffer_size t1" "sample_count t2 = sample_count t1"
    "min_distance t2 = min_distance t1"
    using Cons.prems(1,2,3) by (simp_all add: t1_def t2_def)
  have p1: "\<And>q. prominence_rejects t1 q = prominence_rejects s1 q"
    "\<And>q. width_rejects t1 q = width_rejects s1 q" by (simp_all add: t1_def)
  have p2: "\<And>q. prominence_rejects t2 q = prominence_rejects s2 q"
    "\<And>q. width_rejects t2 q = width_rejects s2 q" by (simp_all add: t2_def)
  have fl: "\<forall>q \<in> set rest. (prominence_rejects t1 q \<longrightarrow> prominence_rejects t2 q) \<and>
                          (width_rejects t1 q \<longrightarrow> width_rejects t2 q)"
    unfolding p1 p2 using Cons.prems(4) by simp
  have due_eq: "due s2 pk = due s1 pk" using Cons.prems(1,2) by (simp add: due_def)
  from Cons.prems(4) have filt: "prominence_rejects s1 pk \<longrightarrow> prominence_rejects s2 pk"
    "width_rejects s1 pk \<longrightarrow> width_rejects s2 pk" by simp_all
  from Cons.prems(5) have below: "\<forall>q \<in> set c1. fst q < fst pk"
    by (auto simp: sorted_wrt_append c1_def)
  from Cons.prems(6) have len: "length c2 \<le> length c1"
    and lst: "length c2 = length c1 \<and> c2 \<noteq> [] \<longrightarrow> fst (last c1) \<le> fst (last c2)"
    by (simp_all add: ahead_def c1_def c2_def)
  have imp: "a2 \<Longrightarrow> length c2 = length c1 \<Longrightarrow> a1"
  proof -
    assume h: a2 and l: "length c2 = length c1"
    from h filt have nr: "\<not> prominence_rejects s1 pk" "\<not> width_rejects s1 pk"
      by (auto simp: accepts_def a2_def)
    from h have nd2: "\<not> distance_rejects s2 pk" by (simp add: accepts_def a2_def)
    have "\<not> distance_rejects s1 pk"
    proof (cases "c1 = []")
      case True
      then show ?thesis by (simp add: distance_rejects_def c1_def)
    next
      case False
      with l have ne2: "c2 \<noteq> []" by auto
      with l lst have "fst (last c1) \<le> fst (last c2)" by simp
      with nd2 ne2 Cons.prems(3) show ?thesis
        by (auto simp: distance_rejects_def c1_def c2_def)
    qed
    with nr h due_eq show a1 by (simp add: accepts_def a1_def a2_def)
  qed
  have ah: "ahead (confirmed_peaks t1) (confirmed_peaks t2)"
  proof (cases a2)
    case y2: True
    show ?thesis
    proof (cases a1)
      case True
      with y2 have "confirmed_peaks t1 = c1 @ [pk]" "confirmed_peaks t2 = c2 @ [pk]"
        by (simp_all add: k1 k2)
      with ahead_snoc_both[OF len] show ?thesis by simp
    next
      case False
      with imp y2 have "length c2 \<noteq> length c1" by blast
      with len have lt: "length c2 < length c1" by simp
      then have ne: "c1 \<noteq> []" by auto
      then have "last c1 \<in> set c1" by simp
      with below have "fst (last c1) \<le> fst pk" by fastforce
      from ahead_snoc_right[OF lt this] have "ahead c1 (c2 @ [pk])" .
      moreover from False y2 have "confirmed_peaks t1 = c1" "confirmed_peaks t2 = c2 @ [pk]"
        by (simp_all add: k1 k2)
      ultimately show ?thesis by simp
    qed
  next
    case n2: False
    show ?thesis
    proof (cases a1)
      case True
      with n2 have "confirmed_peaks t1 = c1 @ [pk]" "confirmed_peaks t2 = c2"
        by (simp_all add: k1 k2)
      with ahead_snoc_left[OF len] show ?thesis by simp
    next
      case False
      with n2 have "confirmed_peaks t1 = c1" "confirmed_peaks t2 = c2"
        by (simp_all add: k1 k2)
      with Cons.prems(6) show ?thesis by (simp add: c1_def c2_def)
    qed
  qed
  have "sorted_wrt (<) (map fst (c1 @ pk # rest))" using Cons.prems(5) by (simp add: c1_def)
  then have "sorted_wrt (<) (map fst (c1 @ rest))" "sorted_wrt (<) (map fst ((c1 @ [pk]) @ rest))"
    by (auto simp: sorted_wrt_append)
  then have srt: "sorted_wrt (<) (map fst (confirmed_peaks t1 @ rest))"
    unfolding k1 by (cases a1) simp_all
  from Cons.IH[OF f fl srt ah] show ?case unfolding r1 r2 .
qed


lemma step_stricter:
  assumes R: "stricter_run s1 s2" and i1: "detector_inv s1"
  shows "stricter_run (step x s1) (step x s2)"
proof -
  define m1 where "m1 = after_check x s1"
  define m2 where "m2 = after_check x s2"
  from R have f: "threshold s1 = threshold s2" "min_distance s1 = min_distance s2"
    "buffer_size s1 = buffer_size s2" "buffer s1 = buffer s2" "buffer_index s1 = buffer_index s2"
    "potential_peaks s1 = potential_peaks s2" "sample_count s1 = sample_count s2"
    and rp: "raised (prominence s1) (prominence s2)" and rw: "raised (width s1) (width s2)"
    and ah: "ahead (confirmed_peaks s1) (confirmed_peaks s2)"
    by (simp_all add: stricter_run_def)
  have pp: "potential_peaks m1 = potential_peaks m2"
    unfolding m1_def m2_def after_check_potential_explicit f by (rule refl)
  have g: "threshold m1 = threshold m2" "min_distance m1 = min_distance m2"
    "buffer_size m1 = buffer_size m2" "buffer m1 = buffer m2" "buffer_index m1 = buffer_index m2"
    "sample_count m1 = sample_count m2"
    "prominence m1 = prominence s1" "prominence m2 = prominence s2"
    "width m1 = width s1" "width m2 = width s2"
    "confirmed_peaks m1 = confirmed_peaks s1" "confirmed_peaks m2 = confirmed_peaks s2"
    unfolding m1_def m2_def using f by simp_all
  have mi: "mid_inv m1" unfolding m1_def by (rule after_check_mid_inv[OF i1])
  then have ok: "buffer_ok m1" and bs: "0 < buffer_size m1"
    and val: "\<forall>pk \<in> set (potential_peaks m1). buffer m1 ! nat (fst pk mod buffer_size m1) = snd pk"
    and srt: "sorted_wrt (<) (map fst (confirmed_peaks m1 @ potential_peaks m1))"
    by (simp_all add: mid_inv_def buffer_ok_def)
  have mm: "stricter_run m1 m2"
    unfolding stricter_run_def using g pp rp rw ah by simp
  show ?thesis
  proof (cases "sample_count m1 \<ge> buffer_size m1")
    case False
    then have "step x s1 = m1" "step x s2 = m2"
      unfolding step_def Let_def m1_def[symmetric] m2_def[symmetric] using g by simp_all
    with mm show ?thesis by simp
  next
    case True
    let ?P = "potential_peaks m1"
    have due_eq: "\<And>pk. due m2 pk = due m1 pk" using g by (simp add: due_def)
    have s1: "step x s1 = (resolve ?P m1)\<lparr>potential_peaks := filter (\<lambda>pk. \<not> due m1 pk) ?P\<rparr>"
      unfolding step_def Let_def m1_def[symmetric] using True by simp
    have s2: "step x s2 = (resolve ?P m2)\<lparr>potential_peaks := filter (\<lambda>pk. \<not> due m1 pk) ?P\<rparr>"
      unfolding step_def Let_def m2_def[symmetric] pp[symmetric] due_eq using True g by simp
    have filt: "\<forall>pk \<in> set ?P. (prominence_rejects m1 pk \<longrightarrow> prominence_rejects m2 pk) \<and>
                          (width_rejects m1 pk \<longrightarrow> width_rejects m2 pk)"
    proof (intro ballI conjI impI)
      fix pk assume pk: "pk \<in> set ?P" and r: "prominence_rejects m1 pk"
      from val pk have v: "buffer m1 ! nat (fst pk mod buffer_size m1) = snd pk" by blast
      show "prominence_rejects m2 pk"
        by (rule raised_prominence_rejects[OF _ g(4) g(3) ok v r]) (use rp g in simp)
    next
      fix pk assume pk: "pk \<in> set ?P" and r: "width_rejects m1 pk"
      show "width_rejects m2 pk"
        by (rule raised_width_rejects[OF _ g(4) g(3) g(1) bs r]) (use rw g in simp)
    qed
    have ah': "ahead (confirmed_peaks m1) (confirmed_peaks m2)" using ah g by simp
    have "ahead (confirmed_peaks (resolve ?P m1)) (confirmed_peaks (resolve ?P m2))"
      by (rule resolve_ahead[OF g(3)[symmetric] g(6)[symmetric] g(2)[symmetric] filt srt ah'])
    then show ?thesis
      unfolding stricter_run_def s1 s2 using g rp rw by simp
  qed
qed

lemma fold_step_stricter:
  "stricter_run s1 s2 \<Longrightarrow> detector_inv s1 \<Longrightarrow>
   stricter_run (fold step xs s1) (fold step xs s2)"
proof (induction xs arbitrary: s1 s2)
  case Nil
  then show ?case by simp
next
  case (Cons x xs)
  from Cons.IH[OF step_stricter[OF Cons.prems, of x] step_inv[OF Cons.prems(2)]]
  show ?case by simp
qed

lemma runs_stricter:
  assumes "raised pr1 pr2" "raised wd1 wd2"
  shows "(\<exists>s1 s2.
      add_samples xs (PeakDetectorSingleSample_init bs th d pr1 wd1) = Some (Inr s1) \<and>
      add_samples xs (PeakDetectorSingleSample_init bs th d pr2 wd2) = Some (Inr s2) \<and>
      length (get_peaks s2) \<le> length (get_peaks s1)) \<or>
    (bs \<le> 0 \<and>
      add_samples xs (PeakDetectorSingleSample_init bs th d pr1 wd1) = Some (Inl IndexError) \<and>
      add_samples xs (PeakDetectorSingleSample_init bs th d pr2 wd2) = Some (Inl IndexError))"
proof (cases "0 < bs")
  case True
  let ?i1 = "PeakDetectorSingleSample_init bs th d pr1 wd1"
  let ?i2 = "PeakDetectorSingleSample_init bs th d pr2 wd2"
  have R: "stricter_run ?i1 ?i2"
    using assms by (simp add: stricter_run_def PeakDetectorSingleSample_init_def ahead_def)
  from fold_step_stricter[OF R init_inv[OF True], of xs]
  have "length (get_peaks (fold step xs ?i2)) \<le> length (get_peaks (fold step xs ?i1))"
    by (simp add: stricter_run_def ahead_def get_peaks_def)
  with run_returns[OF True, of xs th d pr1 wd1] run_returns[OF True, of xs th d pr2 wd2]
  show ?thesis by blast
next
  case False
  then have le: "bs \<le> 0" by simp
  show ?thesis
  proof (cases xs)
    case Nil
    then show ?thesis by (simp add: get_peaks_def PeakDetectorSingleSample_init_def)
  next
    case (Cons x rest)
    with le init_nonpositive_raises[OF le, of x th d pr1 wd1]
      init_nonpositive_raises[OF le, of x th d pr2 wd2]
    show ?thesis by simp
  qed
qed

text \<open>
  C9. Raising \<open>config.prominence\<close> (from \<open>p1\<close> to \<open>p2 \<ge> p1\<close>) with everything else
  fixed never increases the number of peaks returned, and neither does raising
  \<open>config.width\<close>. For \<open>detect_peaks\<close> this holds of the returned peaks and of the
  property lists. For the single-sample detector it holds of the confirmed peaks after
  every stream (with \<open>buffer_size \<le> 0\<close> and a non-empty stream both runs raise at the
  first sample).
\<close>

theorem raising_filters_monotone:
  assumes "p1 \<le> p2" "w1 \<le> w2"
  shows
   "length (fst (detect_peaks (D\<lparr>prominence := Some p2\<rparr>))) \<le>
      length (fst (detect_peaks (D\<lparr>prominence := Some p1\<rparr>))) \<and>
    length (heights (snd (detect_peaks (D\<lparr>prominence := Some p2\<rparr>)))) \<le>
      length (heights (snd (detect_peaks (D\<lparr>prominence := Some p1\<rparr>)))) \<and>
    length (fst (detect_peaks (D\<lparr>width := Some w2\<rparr>))) \<le>
      length (fst (detect_peaks (D\<lparr>width := Some w1\<rparr>))) \<and>
    length (heights (snd (detect_peaks (D\<lparr>width := Some w2\<rparr>)))) \<le>
      length (heights (snd (detect_peaks (D\<lparr>width := Some w1\<rparr>)))) \<and>
    ((\<exists>s1 s2.
        add_samples xs (PeakDetectorSingleSample_init bs th d (Some p1) wd) = Some (Inr s1) \<and>
        add_samples xs (PeakDetectorSingleSample_init bs th d (Some p2) wd) = Some (Inr s2) \<and>
        length (get_peaks s2) \<le> length (get_peaks s1)) \<or>
     (bs \<le> 0 \<and>
        add_samples xs (PeakDetectorSingleSample_init bs th d (Some p1) wd) = Some (Inl IndexError) \<and>
        add_samples xs (PeakDetectorSingleSample_init bs th d (Some p2) wd) = Some (Inl IndexError))) \<and>
    ((\<exists>s1 s2.
        add_samples xs (PeakDetectorSingleSample_init bs th d pr (Some w1)) = Some (Inr s1) \<and>
        add_samples xs (PeakDetectorSingleSample_init bs th d pr (Some w2)) = Some (Inr s2) \<and>
        length (get_peaks s2) \<le> length (get_peaks s1)) \<or>
     (bs \<le> 0 \<and>
        add_samples xs (PeakDetectorSingleSample_init bs th d pr (Some w1)) = Some (Inl IndexError) \<and>
        add_samples xs (PeakDetectorSingleSample_init bs th d pr (Some w2)) = Some (Inl IndexError)))"
proof -
  have rp: "raised (Some p1) (Some p2)" and rw: "raised (Some w1) (Some w2)"
    using assms by (simp_all add: raised_def)
  have same: "\<And>v. raised v v" by (simp add: raised_def)
  note bp = detect_peaks_raise_prominence[OF assms(1), of D]
  note bw = detect_peaks_raise_width[OF assms(2), of D]
  note sp = runs_stricter[OF rp same, of xs bs th d wd]
  note sw = runs_stricter[OF same rw, of xs bs th d pr]
  from bp bw sp sw show ?thesis by (intro conjI) simp_all
qed

theorem raising_filters_monotone_witness:
  "(1 :: real) \<le> 2 \<and> (2 :: real) \<le> 5 \<and>
   length (heights (snd (detect_peaks
      ((PeakDetector_init [0, 1, 0] 0 1 None None)\<lparr>width := Some 5\<rparr>)))) \<le>
   length (heights (snd (detect_peaks
      ((PeakDetector_init [0, 1, 0] 0 1 None None)\<lparr>width := Some 2\<rparr>)))) \<and>
   (\<exists>s1 s2.
      add_samples [0, 1, 0] (PeakDetectorSingleSample_init 3 0 1 (Some 1) None) = Some (Inr s1) \<and>
      add_samples [0, 1, 0] (PeakDetectorSingleSample_init 3 0 1 (Some 2) None) = Some (Inr s2) \<and>
      length (get_peaks s2) \<le> length (get_peaks s1))"
proof -
  have h1: "(1 :: real) \<le> 2" and h2: "(2 :: real) \<le> 5" by simp_all
  note t = raising_filters_monotone[OF h1 h2,
      of "PeakDetector_init [0, 1, 0] 0 1 None None" "[0, 1, 0]" 3 0 1 None None]
  from t have b: "length (heights (snd (detect_peaks
      ((PeakDetector_init [0, 1, 0] 0 1 None None)\<lparr>width := Some 5\<rparr>)))) \<le>
   length (heights (snd (detect_peaks
      ((PeakDetector_init [0, 1, 0] 0 1 None None)\<lparr>width := Some 2\<rparr>))))" by blast
  have nb: "\<not> (3 :: int) \<le> 0" by simp
  from t nb have s: "\<exists>s1 s2.
      add_samples [0, 1, 0] (PeakDetectorSingleSample_init 3 0 1 (Some 1) None) = Some (Inr s1) \<and>
      add_samples [0, 1, 0] (PeakDetectorSingleSample_init 3 0 1 (Some 2) None) = Some (Inr s2) \<and>
      length (get_peaks s2) \<le> length (get_peaks s1)" by blast
  from h1 h2 b s show ?thesis by blast
qed

end
